theory Spec2Isabelle
  imports Main "HOL-Library.Word" "HOL-Library.Monad_Syntax"
begin

unbundle bit_operations_syntax

section \<open>The data plane of l-Othello (src/Othello/data\_plane\_othello.h)\<close>

text \<open>
  The class \<open>DataPlaneOthello<K, V, L, CL>\<close> is embedded as a record of its fields
  together with the two template numbers \<open>L\<close> and \<open>CL\<close>. The key type \<open>K\<close> is the
  type variable \<open>'k\<close>; the value type \<open>V\<close> is the word type \<open>'v word\<close> of the result
  of \<open>lookUp\<close>. Member functions that change the object take the table and return the
  new one.

  Results are of type \<open>option\<close>. \<open>None\<close> stands for every execution that has no
  defined result in C++ or does not return: an access outside a \<open>vector\<close>, the
  dereference of a number that is no address of an object, and the retry loop of
  \<open>lookUp\<close> spinning forever.

  Shifts are \<open>push_bit\<close> and \<open>drop_bit\<close> of 64-bit words. A shift by the full width
  (which C++ leaves undefined) occurs in this class only when \<open>L = 64\<close>, \<open>CL = 64\<close> or
  \<open>L + CL = 64\<close>; there the definitions shift every bit out, which is what the
  comments on the masks describe (\<open>lower VCL bits are 1, others are 0\<close>). The
  theorems on writing and reading back the value sub-field and on the XOR repairs assume
  \<open>L < 64\<close>: then \<open>memValueSet\<close> and \<open>memValueGet\<close> make no shift by 64, and
  the theorems do not rest on that reading of it.
\<close>

type_synonym u8 = "8 word"
type_synonym u32 = "32 word"
type_synonym u64 = "64 word"

record 'k DataPlaneOthello =
  L :: nat
  CL :: nat
  mem :: "u64 list"
  ma :: u32
  mb :: u32
  hab :: "'k \<Rightarrow> u64"
  hd_hash :: "'k \<Rightarrow> u32"
  lock :: "u8 list"
  versions :: "u8 list"

text \<open>\<open>const static int VCL = L + CL\<close> and the three masks.\<close>

definition VCL :: "'k DataPlaneOthello \<Rightarrow> nat" where
  "VCL t = L t + CL t"

definition VCMASK :: "'k DataPlaneOthello \<Rightarrow> u64" where
  "VCMASK t = NOT (push_bit (VCL t) (- 1))"

definition CMASK :: "'k DataPlaneOthello \<Rightarrow> u64" where
  "CMASK t = NOT (push_bit (CL t) (- 1))"

definition VMASK :: "'k DataPlaneOthello \<Rightarrow> u64" where
  "VMASK t = NOT (push_bit (L t) (- 1))"

subsection \<open>Hash-to-bucket mapping\<close>

definition multiply_high_u32 :: "u32 \<Rightarrow> u32 \<Rightarrow> u32" where
  "multiply_high_u32 x y = ucast (drop_bit 32 ((ucast x :: u64) * (ucast y :: u64)))"

definition fast_map_to_A :: "'k DataPlaneOthello \<Rightarrow> u32 \<Rightarrow> u64" where
  "fast_map_to_A t x = ucast (multiply_high_u32 x (ma t))"

definition fast_map_to_B :: "'k DataPlaneOthello \<Rightarrow> u32 \<Rightarrow> u64" where
  "fast_map_to_B t x = ucast (multiply_high_u32 x (mb t))"

text \<open>
  \<open>getIndices\<close> returns the pair \<open>(aInd, bInd)\<close> of its two reference parameters. The
  sum for \<open>bInd\<close> is a 64-bit one, cut to 32 bits by the assignment.
\<close>

definition getIndices :: "'k DataPlaneOthello \<Rightarrow> 'k \<Rightarrow> u32 \<times> u32" where
  "getIndices t k =
     (let hash = hab t k;
          bInd = (ucast (fast_map_to_B t (ucast (drop_bit 32 hash)) + ucast (ma t)) :: u32);
          aInd = (ucast (fast_map_to_A t (ucast hash)) :: u32)
      in (aInd, bInd))"

subsection \<open>Vector accesses\<close>

text \<open>\<open>xs[i]\<close> of a \<open>vector\<close>, read and written; outside the vector there is no result.\<close>

definition vec_at :: "'a list \<Rightarrow> nat \<Rightarrow> 'a option" where
  "vec_at xs i = (if i < length xs then Some (xs ! i) else None)"

definition vec_put :: "'a list \<Rightarrow> nat \<Rightarrow> 'a \<Rightarrow> 'a list option" where
  "vec_put xs i x = (if i < length xs then Some (xs[i := x]) else None)"

text \<open>\<open>lock[index & 8191]++\<close> on the \<open>uint8_t\<close> counters (the sum wraps at 256).\<close>

definition lock_incr :: "u32 \<Rightarrow> 'k DataPlaneOthello \<Rightarrow> 'k DataPlaneOthello option" where
  "lock_incr index t = do {
     c \<leftarrow> vec_at (lock t) (unat (index AND 8191));
     l \<leftarrow> vec_put (lock t) (unat (index AND 8191)) (c + 1);
     Some (t\<lparr>lock := l\<rparr>)
   }"

text \<open>\<open>mem[start] &= mask\<close> and \<open>mem[start] |= bits\<close>.\<close>

definition mem_and :: "nat \<Rightarrow> u64 \<Rightarrow> 'k DataPlaneOthello \<Rightarrow> 'k DataPlaneOthello option" where
  "mem_and start msk t = do {
     w \<leftarrow> vec_at (mem t) start;
     m \<leftarrow> vec_put (mem t) start (w AND msk);
     Some (t\<lparr>mem := m\<rparr>)
   }"

definition mem_or :: "nat \<Rightarrow> u64 \<Rightarrow> 'k DataPlaneOthello \<Rightarrow> 'k DataPlaneOthello option" where
  "mem_or start bits t = do {
     w \<leftarrow> vec_at (mem t) start;
     m \<leftarrow> vec_put (mem t) start (w OR bits);
     Some (t\<lparr>mem := m\<rparr>)
   }"

text \<open>
  The conversion \<open>char(x)\<close> of an \<open>int\<close>, for the signed 8-bit \<open>char\<close> of the x86 ABI.
\<close>

definition to_char :: "int \<Rightarrow> int" where
  "to_char x = signed_take_bit 7 x"

subsection \<open>The bit-packed field store\<close>

text \<open>
  In the four accessors \<open>i\<close> is a \<open>uint64_t\<close>, \<open>start\<close> a \<open>uint32_t\<close>, \<open>offset\<close> a
  \<open>uint8_t\<close> and \<open>left\<close> a \<open>char\<close>; they are natural numbers and integers here, with
  the wrap-around of each type written out.
\<close>

definition memSet :: "u32 \<Rightarrow> u64 \<Rightarrow> 'k DataPlaneOthello \<Rightarrow> 'k DataPlaneOthello option" where
  "memSet index val t =
     (if VCL t = 0 then Some t
      else do {
        t1 \<leftarrow> lock_incr index t;
        let v = val AND VCMASK t;
        let i = (unat index * VCL t) mod 2 ^ 64;
        let start = (i div 64) mod 2 ^ 32;
        let offset = (i mod 64) mod 2 ^ 8;
        let left = to_char (int offset + int (VCL t) - 64);
        let msk = NOT (push_bit offset (VCMASK t));
        t2 \<leftarrow> mem_and start msk t1;
        t3 \<leftarrow> mem_or start (push_bit offset v) t2;
        t4 \<leftarrow> (if left > 0
               then do {
                 let msk = push_bit (nat left) (- 1);
                 t5 \<leftarrow> mem_and ((start + 1) mod 2 ^ 32) msk t3;
                 mem_or ((start + 1) mod 2 ^ 32) (drop_bit (nat (int (VCL t) - left)) v) t5
               }
               else Some t3);
        lock_incr index t4
      })"

definition memGet :: "'k DataPlaneOthello \<Rightarrow> u32 \<Rightarrow> u64 option" where
  "memGet t index = do {
     let i = (unat index * VCL t) mod 2 ^ 64;
     let start = (i div 64) mod 2 ^ 32;
     let offset = (i mod 64) mod 2 ^ 8;
     let left = to_char (int offset + int (VCL t) - 64);
     let left = to_char (if left < 0 then 0 else left);
     let msk = NOT (push_bit (nat (int (VCL t) - left)) (- 1));
     w0 \<leftarrow> vec_at (mem t) start;
     let result = drop_bit offset w0 AND msk;
     if left > 0
     then do {
       let msk = NOT (push_bit (nat left) (- 1));
       w1 \<leftarrow> vec_at (mem t) ((start + 1) mod 2 ^ 32);
       Some (result OR push_bit (nat (int (VCL t) - left)) (w1 AND msk))
     }
     else Some result
   }"

definition memValueSet :: "u32 \<Rightarrow> u64 \<Rightarrow> 'k DataPlaneOthello \<Rightarrow> 'k DataPlaneOthello option" where
  "memValueSet index val t =
     (if L t = 0 then Some t
      else do {
        t1 \<leftarrow> lock_incr index t;
        let v = val AND VMASK t;
        let i = (unat index * VCL t + CL t) mod 2 ^ 64;
        let start = (i div 64) mod 2 ^ 32;
        let offset = (i mod 64) mod 2 ^ 8;
        let left = to_char (int offset + int (L t) - 64);
        let msk = NOT (push_bit offset (VMASK t));
        t2 \<leftarrow> mem_and start msk t1;
        t3 \<leftarrow> mem_or start (push_bit offset v) t2;
        t4 \<leftarrow> (if left > 0
               then do {
                 let msk = push_bit (nat left) (- 1);
                 t5 \<leftarrow> mem_and ((start + 1) mod 2 ^ 32) msk t3;
                 mem_or ((start + 1) mod 2 ^ 32) (drop_bit (nat (int (L t) - left)) v) t5
               }
               else Some t3);
        lock_incr index t4
      })"

definition memValueGet :: "'k DataPlaneOthello \<Rightarrow> u32 \<Rightarrow> u64 option" where
  "memValueGet t index =
     (if L t = 0 then Some 0
      else do {
        let i = (unat index * VCL t + CL t) mod 2 ^ 64;
        let start = (i div 64) mod 2 ^ 32;
        let offset = (i mod 64) mod 2 ^ 8;
        let left = to_char (int offset + int (L t) - 64);
        let left = to_char (if left < 0 then 0 else left);
        let msk = NOT (push_bit (nat (int (L t) - left)) (- 1));
        w0 \<leftarrow> vec_at (mem t) start;
        let result = drop_bit offset w0 AND msk;
        if left > 0
        then do {
          let msk = NOT (push_bit (nat left) (- 1));
          w1 \<leftarrow> vec_at (mem t) ((start + 1) mod 2 ^ 32);
          Some (result OR push_bit (nat (int (L t) - left)) (w1 AND msk))
        }
        else Some result
      })"

subsection \<open>The statements of the two writers\<close>







subsection \<open>Repair primitives\<close>

text \<open>
  \<open>fillSingle(uint32_t valueToFill, uint32_t nodeToFill)\<close>: the value is the first
  parameter and the slot the second.
\<close>

definition fillSingle :: "u32 \<Rightarrow> u32 \<Rightarrow> 'k DataPlaneOthello \<Rightarrow> 'k DataPlaneOthello option" where
  "fillSingle valueToFill nodeToFill t = memValueSet nodeToFill (ucast valueToFill) t"

definition fixSingle :: "u32 \<Rightarrow> u64 \<Rightarrow> 'k DataPlaneOthello \<Rightarrow> 'k DataPlaneOthello option" where
  "fixSingle nodeToFix x t = do {
     g \<leftarrow> memValueGet t nodeToFix;
     let valueToFill = x XOR g;
     memValueSet nodeToFix valueToFill t
   }"

fun fixHalfTreeByConnectedComponent ::
  "u32 list \<Rightarrow> u32 \<Rightarrow> 'k DataPlaneOthello \<Rightarrow> 'k DataPlaneOthello option" where
  "fixHalfTreeByConnectedComponent [] xorTemplate t = Some t"
| "fixHalfTreeByConnectedComponent (index # indices) xorTemplate t = do {
     t' \<leftarrow> fixSingle index (ucast xorTemplate) t;
     fixHalfTreeByConnectedComponent indices xorTemplate t'
   }"

subsection \<open>Lookup\<close>

text \<open>
  \<open>*(uint16_t *) aa += 1\<close> converts the number \<open>aa\<close>, the content of a slot, to a
  pointer and increments the 16 bits stored at that address. The address is that of no
  object of the program (the null pointer when the slot holds 0), so the statement has
  no defined result; it does not change the local variable \<open>aa\<close>.
\<close>

definition incr_u16_at :: "u64 \<Rightarrow> unit option" where
  "incr_u16_at addr = None"

text \<open>
  The body of \<open>while (true)\<close>: each \<open>continue\<close> is the recursive call. The function
  returns the value assigned to \<open>v\<close>, the boolean result and the table.
\<close>

partial_function (option) lookUp_loop ::
  "'k DataPlaneOthello \<Rightarrow> u32 \<Rightarrow> u32 \<Rightarrow> ('v::len word \<times> bool \<times> 'k DataPlaneOthello) option" where
  "lookUp_loop t ha hb = do {
     va1 \<leftarrow> vec_at (lock t) (unat (ha AND 8191));
     vb1 \<leftarrow> vec_at (lock t) (unat (hb AND 8191));
     if unat va1 mod 2 = 1 \<or> unat vb1 mod 2 = 1 then lookUp_loop t ha hb
     else do {
       aa \<leftarrow> memGet t ha;
       bb \<leftarrow> memGet t hb;
       va2 \<leftarrow> vec_at (lock t) (unat (ha AND 8191));
       vb2 \<leftarrow> vec_at (lock t) (unat (hb AND 8191));
       if va1 \<noteq> va2 \<or> vb1 \<noteq> vb2 then lookUp_loop t ha hb
       else do {
         let vc = aa XOR bb;
         let v = ucast (drop_bit (CL t) vc);
         if CL t = 0 then Some (v, True, t)
         else do {
           _ \<leftarrow> incr_u16_at aa;
           _ \<leftarrow> incr_u16_at bb;
           t1 \<leftarrow> memSet ha aa t;
           t2 \<leftarrow> memSet hb bb t1;
           Some (v, True, t2)
         }
       }
     }
   }"

definition lookUp ::
  "'k DataPlaneOthello \<Rightarrow> 'k \<Rightarrow> ('v::len word \<times> bool \<times> 'k DataPlaneOthello) option" where
  "lookUp t k = (case getIndices t k of (ha, hb) \<Rightarrow> lookUp_loop t ha hb)"

text \<open>
  The variant \<open>V lookUp(const K &k)\<close>: it returns the value, or throws
  \<open>runtime_error("No matched key! ")\<close>, here the error \<open>NoMatchedKey\<close>.
\<close>

datatype error = NoMatchedKey

definition lookUp_value ::
  "'k DataPlaneOthello \<Rightarrow> 'k \<Rightarrow> ((error + 'v::len word) \<times> 'k DataPlaneOthello) option" where
  "lookUp_value t k = do {
     (result, success, t') \<leftarrow> lookUp t k;
     if success then Some (Inr result, t') else Some (Inl NoMatchedKey, t')
   }"

subsection \<open>The packed memory as a string of bits\<close>

text \<open>
  The definitions of this subsection are not functions of the class; the theorems are
  stated and proved with them. \<open>mem_bit ws q\<close> is bit \<open>q\<close> of the packed memory:
  bit \<open>q mod 64\<close> of word \<open>q div 64\<close>. A field is the bit range \<open>[p, p + w)\<close>;
  \<open>field_in\<close> says that the vector holds it. \<open>field_get\<close> and \<open>field_set\<close> are the
  word operations that the two getters and the two setters share, with the bit position
  \<open>p\<close> and the width \<open>w\<close> as parameters.
\<close>

definition mem_bit :: "u64 list \<Rightarrow> nat \<Rightarrow> bool" where
  "mem_bit ws q = bit (ws ! (q div 64)) (q mod 64)"

definition field_in :: "u64 list \<Rightarrow> nat \<Rightarrow> nat \<Rightarrow> bool" where
  "field_in ws p w = (p < 64 * length ws \<and> p + w \<le> 64 * length ws)"

definition field_get :: "u64 list \<Rightarrow> nat \<Rightarrow> nat \<Rightarrow> u64" where
  "field_get ws p w =
     (let start = p div 64; offset = p mod 64
      in if offset + w \<le> 64
         then drop_bit offset (ws ! start) AND NOT (push_bit w (- 1))
         else (drop_bit offset (ws ! start) AND NOT (push_bit (64 - offset) (- 1))) OR
              push_bit (64 - offset) (ws ! (start + 1) AND NOT (push_bit (offset + w - 64) (- 1))))"

definition field_set :: "u64 list \<Rightarrow> nat \<Rightarrow> nat \<Rightarrow> u64 \<Rightarrow> u64 list" where
  "field_set ws p w val =
     (let fmask = NOT (push_bit w (- 1));
          v = val AND fmask;
          start = p div 64;
          offset = p mod 64;
          ws1 = ws[start := ws ! start AND NOT (push_bit offset fmask)];
          ws2 = ws1[start := ws1 ! start OR push_bit offset v]
      in if offset + w \<le> 64 then ws2
         else let left = offset + w - 64;
                  ws3 = ws2[start + 1 := ws2 ! (start + 1) AND push_bit left (- 1)]
              in ws3[start + 1 := ws3 ! (start + 1) OR drop_bit (w - left) v])"

text \<open>The two increments of \<open>lock[index & 8191]\<close> that one mutation makes.\<close>

definition bump2 :: "u32 \<Rightarrow> u8 list \<Rightarrow> u8 list" where
  "bump2 index ls = ls[unat (index AND 8191) := ls ! unat (index AND 8191) + 2]"

text \<open>
  The conditions on a table under which the claims are stated: the \<open>static_assert\<close> on
  \<open>VCL\<close>, the 8192 version counters of the member initialiser, and a packed memory
  that is not empty and holds all \<open>ma + mb\<close> slots of \<open>VCL\<close> bits.
\<close>

definition mem_covers :: "'k DataPlaneOthello \<Rightarrow> bool" where
  "mem_covers t =
     (mem t \<noteq> [] \<and> (unat (ma t) + unat (mb t)) * VCL t \<le> 64 * length (mem t))"

definition valid_table :: "'k DataPlaneOthello \<Rightarrow> bool" where
  "valid_table t = (VCL t \<le> 64 \<and> length (lock t) = 8192 \<and> mem_covers t)"

definition in_bounds :: "'k DataPlaneOthello \<Rightarrow> u32 \<Rightarrow> bool" where
  "in_bounds t index = (unat index < unat (ma t) + unat (mb t))"

definition all_even :: "u8 list \<Rightarrow> bool" where
  "all_even ls = (\<forall>c \<in> set ls. unat c mod 2 = 0)"

subsection \<open>Example tables\<close>

text \<open>
  A table with \<open>ma = 4\<close>, \<open>mb = 4\<close>, \<open>L = 8\<close>, \<open>CL = 0\<close>, one word of memory for
  its eight slots, and a hash that sends every key to \<open>(aIdx, bIdx) = (1, 6)\<close>.
\<close>

definition small_table :: "unit DataPlaneOthello" where
  "small_table = \<lparr>L = 8, CL = 0, mem = [0], ma = 4, mb = 4,
     hab = (\<lambda>_. 0x8000000040000000), hd_hash = (\<lambda>_. 0),
     lock = replicate 8192 0, versions = []\<rparr>"

text \<open>A table whose two bucket counts add up to more than \<open>2^32\<close>.\<close>

definition overflow_table :: "unit DataPlaneOthello" where
  "overflow_table = \<lparr>L = 8, CL = 0, mem = [], ma = 0xFFFFFFFF, mb = 2,
     hab = (\<lambda>_. 0xFFFFFFFF00000000), hd_hash = (\<lambda>_. 0),
     lock = replicate 8192 0, versions = []\<rparr>"

text \<open>
  A table with \<open>L = 20\<close> and \<open>CL = 4\<close>: the value field of slot 2 occupies the bits
  52 to 71 of the packed memory, across the boundary of the first two words.
\<close>

definition straddle_table :: "unit DataPlaneOthello" where
  "straddle_table = \<lparr>L = 20, CL = 4, mem = [0x0123456789ABCDEF, 0xFEDCBA9876543210], ma = 2, mb = 2,
     hab = (\<lambda>_. 0), hd_hash = (\<lambda>_. 0),
     lock = replicate 8192 0, versions = []\<rparr>"

text \<open>
  A table of eight 8-bit slots in one word, slot \<open>k\<close> holding \<open>k + 1\<close>.
\<close>

definition component_table :: "unit DataPlaneOthello" where
  "component_table = \<lparr>L = 8, CL = 0, mem = [0x0807060504030201], ma = 4, mb = 4,
     hab = (\<lambda>_. 0x8000000040000000), hd_hash = (\<lambda>_. 0),
     lock = replicate 8192 0, versions = []\<rparr>"

text \<open>
  A table without B slots: \<open>ma = 8\<close>, \<open>mb = 0\<close>, and one word of memory, which holds
  all eight slots.
\<close>

definition no_B_table :: "unit DataPlaneOthello" where
  "no_B_table = \<lparr>L = 8, CL = 0, mem = [0], ma = 8, mb = 0,
     hab = (\<lambda>_. 0), hd_hash = (\<lambda>_. 0),
     lock = replicate 8192 0, versions = []\<rparr>"

text \<open>
  A table with a control sub-field, \<open>CL = 6\<close> as in \<open>OthelloWithFilter\<close>: eight slots of
  14 bits in two words, all bits 0.
\<close>

definition filter_table :: "unit DataPlaneOthello" where
  "filter_table = \<lparr>L = 8, CL = 6, mem = [0, 0], ma = 4, mb = 4,
     hab = (\<lambda>_. 0x8000000040000000), hd_hash = (\<lambda>_. 0),
     lock = replicate 8192 0, versions = []\<rparr>"

text \<open>
  The table of the default constructor, \<open>DataPlaneOthello() = default\<close>: no slots and an
  empty packed memory.
\<close>

definition default_table :: "unit DataPlaneOthello" where
  "default_table = \<lparr>L = 8, CL = 0, mem = [], ma = 0, mb = 0,
     hab = (\<lambda>_. 0), hd_hash = (\<lambda>_. 0),
     lock = replicate 8192 0, versions = []\<rparr>"

text \<open>
  The table \<open>small_table\<close> with six words of memory instead of one, so that a write to
  slot 42 stays inside the vector.
\<close>

definition roomy_table :: "unit DataPlaneOthello" where
  "roomy_table = \<lparr>L = 8, CL = 0, mem = [0, 0, 0, 0, 0, 0], ma = 4, mb = 4,
     hab = (\<lambda>_. 0x8000000040000000), hd_hash = (\<lambda>_. 0),
     lock = replicate 8192 0, versions = []\<rparr>"





section \<open>Hash-to-bucket mapping: range reduction\<close>

lemma u32_lt: "unat (x::u32) < 2 ^ 32"
proof -
  have "unat x < 2 ^ LENGTH(32)" by (rule unsigned_less)
  then show ?thesis by simp
qed

lemma u64_lt: "unat (x::u64) < 2 ^ 64"
proof -
  have "unat x < 2 ^ LENGTH(64)" by (rule unsigned_less)
  then show ?thesis by simp
qed

lemma ucast_up: "unat (ucast (x::u32) :: u64) = unat x"
  using u32_lt [of x] by (simp add: unsigned_ucast_eq take_bit_nat_eq_self_iff)

lemma ucast_down: "unat (ucast (w::u64) :: u32) = unat w mod 2 ^ 32"
  by (simp add: unsigned_ucast_eq take_bit_eq_mod)

lemma unat_multiply_high_u32:
  "unat (multiply_high_u32 x y) = (unat x * unat y) div 2 ^ 32"
proof -
  have lt: "unat x * unat y < 2 ^ 32 * 2 ^ 32"
    using u32_lt [of x] u32_lt [of y] by (intro mult_strict_mono') simp_all
  have "unat ((ucast x :: u64) * ucast y) = unat x * unat y"
    using lt by (simp add: unat_word_ariths ucast_up)
  moreover have "(unat x * unat y) div 2 ^ 32 < 2 ^ 32"
    using lt by (simp add: less_mult_imp_div_less)
  ultimately show ?thesis
    unfolding multiply_high_u32_def
    by (simp add: unsigned_ucast_eq unat_drop_bit_eq drop_bit_eq_div
        take_bit_nat_eq_self_iff unat_div)
qed

lemma multiply_high_u32_less:
  assumes "0 < unat y"
  shows "unat (multiply_high_u32 x y) < unat y"
proof -
  have "unat x * unat y < 2 ^ 32 * unat y"
    using u32_lt [of x] assms by simp
  then have "(unat x * unat y) div 2 ^ 32 < unat y"
    by (simp add: less_mult_imp_div_less mult.commute)
  then show ?thesis by (simp add: unat_multiply_high_u32)
qed

lemma unat_high_half: "unat (ucast (drop_bit 32 (h::u64)) :: u32) = unat h div 2 ^ 32"
proof -
  have "unat h div 2 ^ 32 < 2 ^ 32"
    using u64_lt [of h] by (simp add: less_mult_imp_div_less)
  then show ?thesis
    by (simp add: ucast_down unat_drop_bit_eq drop_bit_eq_div unat_div)
qed

lemma getIndices_a:
  "unat (fst (getIndices t k)) = (unat (hab t k) mod 2 ^ 32 * unat (ma t)) div 2 ^ 32"
proof -
  have "unat (fst (getIndices t k)) =
      unat (multiply_high_u32 (ucast (hab t k)) (ma t)) mod 2 ^ 32"
    by (simp add: getIndices_def Let_def fast_map_to_A_def ucast_down ucast_up)
  also have "\<dots> = unat (multiply_high_u32 (ucast (hab t k)) (ma t))"
    using u32_lt [of "multiply_high_u32 (ucast (hab t k)) (ma t)"] by simp
  finally show ?thesis
    by (simp add: unat_multiply_high_u32 ucast_down)
qed

lemma getIndices_b_mod:
  "unat (snd (getIndices t k)) =
     (unat (hab t k) div 2 ^ 32 * unat (mb t) div 2 ^ 32 + unat (ma t)) mod 2 ^ 32"
proof -
  let ?m = "multiply_high_u32 (ucast (drop_bit 32 (hab t k))) (mb t)"
  have "unat ?m + unat (ma t) < 2 ^ 64"
    using u32_lt [of ?m] u32_lt [of "ma t"] by simp
  then have "unat ((ucast ?m :: u64) + ucast (ma t)) = unat ?m + unat (ma t)"
    by (simp add: unat_word_ariths ucast_up)
  then have "unat (snd (getIndices t k)) = (unat ?m + unat (ma t)) mod 2 ^ 32"
    by (simp add: getIndices_def Let_def fast_map_to_B_def ucast_down)
  then show ?thesis
    by (simp add: unat_multiply_high_u32 unat_high_half)
qed

lemma getIndices_a_less:
  assumes "0 < unat (ma t)"
  shows "unat (fst (getIndices t k)) < unat (ma t)"
  using multiply_high_u32_less [OF assms, of "ucast (hab t k)"]
  by (simp add: getIndices_a unat_multiply_high_u32 ucast_down)

lemma getIndices_b_less:
  assumes "0 < unat (mb t)"
  shows "unat (snd (getIndices t k)) < unat (ma t) + unat (mb t)"
proof -
  have "unat (hab t k) div 2 ^ 32 * unat (mb t) div 2 ^ 32 < unat (mb t)"
    using multiply_high_u32_less [OF assms, of "ucast (drop_bit 32 (hab t k))"]
    by (simp add: unat_multiply_high_u32 unat_high_half)
  moreover have "unat (snd (getIndices t k)) \<le>
      unat (hab t k) div 2 ^ 32 * unat (mb t) div 2 ^ 32 + unat (ma t)"
    unfolding getIndices_b_mod by (rule mod_less_eq_dividend)
  ultimately show ?thesis by simp
qed

text \<open>
  Claim C7, amended. For every 32-bit \<open>x\<close> and every count, \<open>multiply_high_u32\<close>, and so
  \<open>fast_map_to_A\<close> and \<open>fast_map_to_B\<close> with the counts \<open>ma\<close> and \<open>mb\<close>, return
  \<open>(x * count) >> 32\<close>, which is below the count when the count is at least 1. For
  every key \<open>k\<close>, \<open>getIndices\<close> yields \<open>aInd\<close> computed from the low 32 bits of
  \<open>hab k\<close>, in \<open>[0, ma)\<close> when \<open>ma \<ge> 1\<close>; and \<open>bInd\<close>, which is \<open>ma\<close> plus the index
  computed from the high 32 bits of \<open>hab k\<close>, and so at least \<open>ma\<close>, when
  \<open>ma + mb \<le> 2^32\<close>, and which is below \<open>ma + mb\<close> when \<open>mb \<ge> 1\<close>. Each part stands
  under its own condition; together they give \<open>aInd\<close> in \<open>[0, ma)\<close> and \<open>bInd\<close> in
  \<open>[ma, ma + mb)\<close> for \<open>ma \<ge> 1\<close>, \<open>mb \<ge> 1\<close> and \<open>ma + mb \<le> 2^32\<close>.
\<close>

theorem getIndices_ranges:
  "unat (multiply_high_u32 x c) = unat x * unat c div 2 ^ 32
   \<and> (0 < unat c \<longrightarrow> unat (multiply_high_u32 x c) < unat c)
   \<and> unat (fast_map_to_A t x) = unat x * unat (ma t) div 2 ^ 32
   \<and> (0 < unat (ma t) \<longrightarrow> unat (fast_map_to_A t x) < unat (ma t))
   \<and> unat (fast_map_to_B t x) = unat x * unat (mb t) div 2 ^ 32
   \<and> (0 < unat (mb t) \<longrightarrow> unat (fast_map_to_B t x) < unat (mb t))
   \<and> unat (fst (getIndices t k)) = (unat (hab t k) mod 2 ^ 32) * unat (ma t) div 2 ^ 32
   \<and> (0 < unat (ma t) \<longrightarrow> unat (fst (getIndices t k)) < unat (ma t))
   \<and> (unat (ma t) + unat (mb t) \<le> 2 ^ 32 \<longrightarrow>
        unat (snd (getIndices t k)) =
          unat (ma t) + (unat (hab t k) div 2 ^ 32) * unat (mb t) div 2 ^ 32
        \<and> unat (ma t) \<le> unat (snd (getIndices t k)))
   \<and> (0 < unat (mb t) \<longrightarrow> unat (snd (getIndices t k)) < unat (ma t) + unat (mb t))"
proof -
  have a: "unat (fast_map_to_A t x) = unat x * unat (ma t) div 2 ^ 32"
    by (simp add: fast_map_to_A_def ucast_up unat_multiply_high_u32)
  have a_lt: "unat (fast_map_to_A t x) < unat (ma t)" if "0 < unat (ma t)"
    using multiply_high_u32_less [OF that, of x] by (simp add: fast_map_to_A_def ucast_up)
  have b: "unat (fast_map_to_B t x) = unat x * unat (mb t) div 2 ^ 32"
    by (simp add: fast_map_to_B_def ucast_up unat_multiply_high_u32)
  have b_lt: "unat (fast_map_to_B t x) < unat (mb t)" if "0 < unat (mb t)"
    using multiply_high_u32_less [OF that, of x] by (simp add: fast_map_to_B_def ucast_up)
  have bi: "unat (snd (getIndices t k)) =
      unat (ma t) + (unat (hab t k) div 2 ^ 32) * unat (mb t) div 2 ^ 32"
    if le: "unat (ma t) + unat (mb t) \<le> 2 ^ 32"
  proof -
    have "unat (hab t k) div 2 ^ 32 * unat (mb t) div 2 ^ 32 + unat (ma t) < 2 ^ 32"
    proof (cases "unat (mb t) = 0")
      case True
      then show ?thesis using u32_lt [of "ma t"] by simp
    next
      case False
      then have "unat (hab t k) div 2 ^ 32 * unat (mb t) div 2 ^ 32 < unat (mb t)"
        using multiply_high_u32_less [of "mb t" "ucast (drop_bit 32 (hab t k))"]
        by (simp add: unat_multiply_high_u32 unat_high_half)
      then show ?thesis using le by simp
    qed
    then show ?thesis by (simp add: getIndices_b_mod add.commute)
  qed
  show ?thesis
    using a a_lt b b_lt getIndices_a [of t k] getIndices_a_less [of t k] bi
      getIndices_b_less [of t k] unat_multiply_high_u32 [of x c] multiply_high_u32_less [of c x]
    by simp
qed

theorem getIndices_ranges_witness:
  "0 < unat (4 :: u32) \<and> unat (multiply_high_u32 0x80000000 4) = 2
   \<and> unat (multiply_high_u32 0x80000000 4) < unat (4 :: u32)
   \<and> 0 < unat (ma small_table) \<and> 0 < unat (mb small_table)
   \<and> unat (ma small_table) + unat (mb small_table) \<le> 2 ^ 32
   \<and> unat (fast_map_to_A small_table 0x40000000) = 1
   \<and> unat (fast_map_to_A small_table 0x40000000) < unat (ma small_table)
   \<and> unat (fast_map_to_B small_table 0x80000000) = 2
   \<and> unat (fast_map_to_B small_table 0x80000000) < unat (mb small_table)
   \<and> unat (fst (getIndices small_table ())) = 1
   \<and> unat (snd (getIndices small_table ())) = 6
   \<and> unat (fst (getIndices small_table ())) < unat (ma small_table)
   \<and> unat (ma small_table) \<le> unat (snd (getIndices small_table ()))
   \<and> unat (snd (getIndices small_table ())) < unat (ma small_table) + unat (mb small_table)"
  using getIndices_ranges [of "0x40000000" 4 small_table "()"]
    getIndices_ranges [of "0x80000000" 4 small_table "()"]
  by (simp add: small_table_def)

text \<open>
  Claim C7 as stated fails when \<open>ma + mb\<close> exceeds \<open>2^32\<close>: with \<open>ma = 2^32 - 1\<close>,
  \<open>mb = 2\<close> and the high half of the hash \<open>0xFFFFFFFF\<close>, the 64-bit sum \<open>1 + ma\<close> is
  \<open>2^32\<close>, and the \<open>uint32_t\<close> \<open>bInd\<close> receives 0, which is below \<open>ma\<close>.
\<close>

theorem getIndices_overflow_counterexample:
  "0 < unat (ma overflow_table) \<and> 0 < unat (mb overflow_table)
   \<and> unat (snd (getIndices overflow_table ())) = 0
   \<and> \<not> unat (ma overflow_table) \<le> unat (snd (getIndices overflow_table ()))"
  by (simp add: getIndices_b_mod overflow_table_def)

section \<open>The bit-packed field store\<close>

subsection \<open>Bits of the word expressions\<close>

lemma get_lo:
  "bit (drop_bit off (w0::u64) AND NOT (push_bit w (- 1))) n \<longleftrightarrow> n < w \<and> bit w0 (off + n)"
  by (auto simp add: bit_simps dest: bit_imp_le_length)

lemma get_hi:
  assumes "off < 64" "64 < off + w"
  shows "bit ((drop_bit off (w0::u64) AND NOT (push_bit (64 - off) (- 1))) OR
              push_bit (64 - off) ((w1::u64) AND NOT (push_bit (off + w - 64) (- 1)))) n
         \<longleftrightarrow> n < w \<and> n < 64 \<and> (if off + n < 64 then bit w0 (off + n) else bit w1 (off + n - 64))"
  using assms
  by (auto simp add: bit_simps ac_simps dest: bit_imp_le_length)

lemma set_w0:
  "bit (((w0::u64) AND NOT (push_bit off (NOT (push_bit w (- 1))))) OR push_bit off (v AND NOT (push_bit w (- 1)))) n
    \<longleftrightarrow> n < 64 \<and> (if off \<le> n \<and> n < off + w then bit v (n - off) else bit w0 n)"
  by (auto simp add: bit_simps ac_simps dest: bit_imp_le_length)

lemma set_w1:
  assumes "off < 64" "64 < off + w" "w \<le> 64"
  shows "bit (((w1::u64) AND push_bit (off + w - 64) (- 1)) OR drop_bit (64 - off) (v AND NOT (push_bit w (- 1)))) n
    \<longleftrightarrow> n < 64 \<and> (if n < off + w - 64 then bit v (n + 64 - off) else bit w1 n)"
  using assms
  by (auto simp add: bit_simps ac_simps dest: bit_imp_le_length)

subsection \<open>Bits of a field read and of a field write\<close>

lemma pos_same_word:
  assumes "p mod 64 + n < 64"
  shows "(p + n) div 64 = p div 64" and "(p + n) mod 64 = p mod 64 + (n::nat)"
proof -
  have eq: "p + n = (p mod 64 + n) + 64 * (p div 64)" by simp
  show "(p + n) div 64 = p div 64"
    unfolding eq using assms by (simp only: div_mult_self2 div_less)
  show "(p + n) mod 64 = p mod 64 + n"
    unfolding eq using assms by (simp only: mod_mult_self2 mod_less)
qed

lemma pos_next_word:
  assumes "64 \<le> p mod 64 + n" and "n < 64"
  shows "(p + n) div 64 = p div 64 + 1" and "(p + n) mod 64 = p mod 64 + (n::nat) - 64"
proof -
  have r: "p mod 64 + n - 64 < 64"
    using assms(2) mod_less_divisor [of 64 p] by simp
  have eq: "p + n = (p mod 64 + n - 64) + 64 * (p div 64 + 1)"
    using assms(1) by simp
  show "(p + n) div 64 = p div 64 + 1"
    unfolding eq using r by (simp only: div_mult_self2 div_less)
  show "(p + n) mod 64 = p mod 64 + n - 64"
    unfolding eq using r by (simp only: mod_mult_self2 mod_less)
qed

lemma field_get_bit:
  assumes "w \<le> 64"
  shows "bit (field_get ws p w) n \<longleftrightarrow> n < w \<and> mem_bit ws (p + n)"
proof (cases "p mod 64 + w \<le> 64")
  case True
  then have fg: "field_get ws p w =
      drop_bit (p mod 64) (ws ! (p div 64)) AND NOT (push_bit w (- 1))"
    by (simp only: field_get_def Let_def if_True)
  show ?thesis
  proof (cases "n < w")
    case lt: True
    then have "p mod 64 + n < 64" using True by simp
    then show ?thesis
      unfolding fg get_lo mem_bit_def using lt by (simp only: pos_same_word)
  next
    case False
    then show ?thesis unfolding fg get_lo by simp
  qed
next
  case False
  then have fg: "field_get ws p w =
      (drop_bit (p mod 64) (ws ! (p div 64)) AND NOT (push_bit (64 - p mod 64) (- 1))) OR
       push_bit (64 - p mod 64) (ws ! (p div 64 + 1) AND NOT (push_bit (p mod 64 + w - 64) (- 1)))"
    by (simp only: field_get_def Let_def if_False)
  have off: "p mod 64 < 64" by simp
  have hi: "64 < p mod 64 + w" using False by simp
  show ?thesis
  proof (cases "n < w")
    case lt: True
    then have n64: "n < 64" using assms by simp
    show ?thesis
    proof (cases "p mod 64 + n < 64")
      case True
      then show ?thesis
        unfolding fg get_hi [OF off hi] mem_bit_def using lt n64
        by (simp only: pos_same_word if_True simp_thms)
    next
      case ge: False
      then have "64 \<le> p mod 64 + n" by simp
      then show ?thesis
        unfolding fg get_hi [OF off hi] mem_bit_def using lt n64 ge
        by (simp only: pos_next_word if_False simp_thms)
    qed
  next
    case ge: False
    then show ?thesis unfolding fg get_hi [OF off hi] by simp
  qed
qed

lemma length_field_set: "length (field_set ws p w v) = length ws"
  by (simp add: field_set_def Let_def)

lemma field_set_one_word:
  assumes "p mod 64 + w \<le> 64" and "p div 64 < length ws"
  shows "field_set ws p w v = ws[p div 64 :=
      (ws ! (p div 64) AND NOT (push_bit (p mod 64) (NOT (push_bit w (- 1))))) OR
       push_bit (p mod 64) (v AND NOT (push_bit w (- 1)))]"
  using assms
  by (simp only: field_set_def Let_def if_True nth_list_update_eq list_update_overwrite)

lemma field_set_two_words:
  assumes "\<not> p mod 64 + w \<le> 64" and "p div 64 + 1 < length ws"
  shows "field_set ws p w v = ws[p div 64 :=
      (ws ! (p div 64) AND NOT (push_bit (p mod 64) (NOT (push_bit w (- 1))))) OR
       push_bit (p mod 64) (v AND NOT (push_bit w (- 1))),
     p div 64 + 1 :=
      (ws ! (p div 64 + 1) AND push_bit (p mod 64 + w - 64) (- 1)) OR
       drop_bit (w - (p mod 64 + w - 64)) (v AND NOT (push_bit w (- 1)))]"
proof -
  have a: "p div 64 < length ws" using assms(2) by simp
  have ne: "p div 64 \<noteq> p div 64 + 1" by simp
  show ?thesis
    using assms a
    by (simp only: field_set_def Let_def if_False nth_list_update_eq list_update_overwrite
        length_list_update nth_list_update_neq [OF ne])
qed

lemma field_set_bit:
  assumes w: "w \<le> 64" and fin: "field_in ws p w" and qin: "q < 64 * length ws"
  shows "mem_bit (field_set ws p w v) q \<longleftrightarrow>
           (if p \<le> q \<and> q < p + w then bit v (q - p) else mem_bit ws q)"
proof -
  have p: "p = 64 * (p div 64) + p mod 64" and off: "p mod 64 < 64"
    and q: "q = 64 * (q div 64) + q mod 64" and r: "q mod 64 < 64"
    by simp_all
  have s_in: "p div 64 < length ws"
    using fin by (simp add: field_in_def div_less_iff_less_mult)
  have j_in: "q div 64 < length ws"
    using qin by (simp add: div_less_iff_less_mult)
  show ?thesis
  proof (cases "p mod 64 + w \<le> 64")
    case one: True
    note fs = field_set_one_word [OF one s_in, of v]
    show ?thesis
    proof (cases "q div 64 = p div 64")
      case True
      have c: "(p \<le> q \<and> q < p + w) \<longleftrightarrow> (p mod 64 \<le> q mod 64 \<and> q mod 64 < p mod 64 + w)"
        using p q True by linarith
      have d: "q - p = q mod 64 - p mod 64"
        using p q True by linarith
      show ?thesis
        unfolding fs mem_bit_def True c d using s_in r
        by (simp only: nth_list_update_eq set_w0 simp_thms)
    next
      case False
      then have c: "\<not> (p \<le> q \<and> q < p + w)"
        using p q one off r by (cases "q div 64 < p div 64") linarith+
      have n1: "p div 64 \<noteq> q div 64" using False by simp
      show ?thesis
        unfolding fs mem_bit_def using c
        by (simp only: nth_list_update_neq [OF n1] if_False)
    qed
  next
    case two: False
    have s1_in: "p div 64 + 1 < length ws"
    proof -
      have "64 * (p div 64) + 64 < p + w" using p two by linarith
      then have "64 * (p div 64 + 1) < 64 * length ws"
        using fin by (simp add: field_in_def)
      then show ?thesis by simp
    qed
    note fs = field_set_two_words [OF two s1_in, of v]
    have hi: "64 < p mod 64 + w" using two by simp
    have wl: "w - (p mod 64 + w - 64) = 64 - p mod 64" using hi off by simp
    show ?thesis
    proof (cases "q div 64 = p div 64")
      case True
      have c: "(p \<le> q \<and> q < p + w) \<longleftrightarrow> (p mod 64 \<le> q mod 64 \<and> q mod 64 < p mod 64 + w)"
        using p q True by linarith
      have d: "q - p = q mod 64 - p mod 64"
        using p q True by linarith
      have ne: "p div 64 + 1 \<noteq> p div 64" by simp
      show ?thesis
        unfolding fs mem_bit_def True c d using s_in r
        by (simp only: nth_list_update_neq [OF ne] nth_list_update_eq set_w0 simp_thms)
    next
      case ne0: False
      show ?thesis
      proof (cases "q div 64 = p div 64 + 1")
        case True
        have c: "(p \<le> q \<and> q < p + w) \<longleftrightarrow> q mod 64 < p mod 64 + w - 64"
          using p q True hi off by linarith
        have d: "q - p = q mod 64 + 64 - p mod 64"
          using p q True off by linarith
        have ne: "p div 64 \<noteq> p div 64 + 1" by simp
        show ?thesis
          unfolding fs mem_bit_def True c d wl using s1_in r
          by (simp only: nth_list_update_eq length_list_update nth_list_update_neq [OF ne]
              set_w1 [OF off hi w] simp_thms)
      next
        case False
        then have c: "\<not> (p \<le> q \<and> q < p + w)"
          using p q ne0 off r w by (cases "q div 64 < p div 64") linarith+
        have n1: "p div 64 \<noteq> q div 64" using ne0 by simp
        have n2: "p div 64 + 1 \<noteq> q div 64" using False by simp
        show ?thesis
          unfolding fs mem_bit_def using c
          by (simp only: nth_list_update_neq [OF n1] nth_list_update_neq [OF n2] if_False)
      qed
    qed
  qed
qed

subsection \<open>The accessors in terms of fields\<close>

lemma to_char_id: "- 128 \<le> x \<Longrightarrow> x < 128 \<Longrightarrow> to_char x = x"
  unfolding to_char_def by (rule signed_take_bit_int_eq_self) simp_all

lemma get_body:
  assumes w: "w \<le> 64" and plt: "p < 2 ^ 38" and p: "p + w \<le> 2 ^ 38" and fin: "field_in ws p w"
  shows "do {
     let i = p mod 2 ^ 64;
     let start = (i div 64) mod 2 ^ 32;
     let offset = (i mod 64) mod 2 ^ 8;
     let left = to_char (int offset + int w - 64);
     let left = to_char (if left < 0 then 0 else left);
     let msk = NOT (push_bit (nat (int w - left)) (- 1));
     w0 \<leftarrow> vec_at ws start;
     let result = drop_bit offset w0 AND msk;
     if left > 0
     then do {
       let msk = NOT (push_bit (nat left) (- 1));
       w1 \<leftarrow> vec_at ws ((start + 1) mod 2 ^ 32);
       Some (result OR push_bit (nat (int w - left)) (w1 AND msk))
     }
     else Some result
   } = Some (field_get ws p w)"
proof -
  have off: "p mod 64 < 64" by simp
  have pm: "p mod 2 ^ 64 = p" using plt by simp
  have om: "(p mod 64) mod 2 ^ 8 = p mod 64" by simp
  have s_in: "p div 64 < length ws"
    using fin by (simp add: field_in_def div_less_iff_less_mult)
  have sm: "(p div 64) mod 2 ^ 32 = p div 64"
    using plt by (simp add: div_less_iff_less_mult)
  have pq: "p = 64 * (p div 64) + p mod 64" by simp
  show ?thesis
  proof (cases "p mod 64 + w \<le> 64")
    case True
    have l0: "to_char (int (p mod 64) + int w - 64) = int (p mod 64) + int w - 64"
      using off w by (intro to_char_id) simp_all
    have l1: "to_char (if int (p mod 64) + int w - 64 < 0 then 0 else int (p mod 64) + int w - 64) = 0"
    proof (cases "int (p mod 64) + int w - 64 < 0")
      case True
      then show ?thesis by (simp add: to_char_def)
    next
      case False
      then have "int (p mod 64) + int w - 64 = 0" using True by linarith
      then show ?thesis by (simp add: to_char_def)
    qed
    show ?thesis
      unfolding pm sm om Let_def l0 l1 using True s_in
      by (simp add: vec_at_def field_get_def Let_def)
  next
    case False
    have l0: "to_char (int (p mod 64) + int w - 64) = int (p mod 64) + int w - 64"
      using off w by (intro to_char_id) simp_all
    have l1: "to_char (if int (p mod 64) + int w - 64 < 0 then 0 else int (p mod 64) + int w - 64)
        = int (p mod 64) + int w - 64"
      using False l0 by simp
    have n1: "nat (int w - (int (p mod 64) + int w - 64)) = 64 - p mod 64"
      using off by simp
    have n2: "nat (int (p mod 64) + int w - 64) = p mod 64 + w - 64"
      using False by simp
    have "64 * (p div 64) + 64 < p + w" using pq False by linarith
    then have s1: "64 * (p div 64 + 1) < 2 ^ 38" and s1': "64 * (p div 64 + 1) < 64 * length ws"
      using p fin by (simp_all add: field_in_def)
    have s1m: "(p div 64 + 1) mod 2 ^ 32 = p div 64 + 1"
      using s1 by simp
    have s1_in: "p div 64 + 1 < length ws" using s1' by simp
    have pos: "0 < int (p mod 64) + int w - 64" using False by simp
    show ?thesis
      unfolding pm sm om Let_def l0 l1 n1 n2 s1m using False s_in s1_in pos
      by (simp add: vec_at_def field_get_def Let_def)
  qed
qed

lemma memGet_field:
  assumes "VCL t \<le> 64" and "field_in (mem t) (unat index * VCL t) (VCL t)"
  shows "memGet t index = Some (field_get (mem t) (unat index * VCL t) (VCL t))"
proof -
  have "unat index * VCL t \<le> (2 ^ 32 - 1) * 64"
    using u32_lt [of index] assms(1) by (intro mult_mono) simp_all
  then have "unat index * VCL t < 2 ^ 38" and "unat index * VCL t + VCL t \<le> 2 ^ 38"
    using assms(1) by simp_all
  then show ?thesis
    unfolding memGet_def by (rule get_body [OF assms(1) _ _ assms(2)])
qed

lemma memValueGet_field:
  assumes "VCL t \<le> 64" and "field_in (mem t) (unat index * VCL t + CL t) (L t)"
  shows "memValueGet t index = Some (field_get (mem t) (unat index * VCL t + CL t) (L t))"
proof (cases "L t = 0")
  case True
  then show ?thesis by (simp add: memValueGet_def field_get_def)
next
  case False
  have "unat index * VCL t \<le> (2 ^ 32 - 1) * 64"
    using u32_lt [of index] assms(1) by (intro mult_mono) simp_all
  then have "unat index * VCL t + CL t < 2 ^ 38" and "unat index * VCL t + CL t + L t \<le> 2 ^ 38"
    using assms(1) False by (simp_all add: VCL_def)
  moreover have "L t \<le> 64" using assms(1) by (simp add: VCL_def)
  ultimately have "do {
     let i = (unat index * VCL t + CL t) mod 2 ^ 64;
     let start = (i div 64) mod 2 ^ 32;
     let offset = (i mod 64) mod 2 ^ 8;
     let left = to_char (int offset + int (L t) - 64);
     let left = to_char (if left < 0 then 0 else left);
     let msk = NOT (push_bit (nat (int (L t) - left)) (- 1));
     w0 \<leftarrow> vec_at (mem t) start;
     let result = drop_bit offset w0 AND msk;
     if left > 0
     then do {
       let msk = NOT (push_bit (nat left) (- 1));
       w1 \<leftarrow> vec_at (mem t) ((start + 1) mod 2 ^ 32);
       Some (result OR push_bit (nat (int (L t) - left)) (w1 AND msk))
     }
     else Some result
   } = Some (field_get (mem t) (unat index * VCL t + CL t) (L t))"
    using assms(2) by (intro get_body)
  then show ?thesis
    unfolding memValueGet_def using False by (simp only: if_False)
qed

lemma set_body:
  assumes w: "w \<le> 64" and plt: "p < 2 ^ 38" and p: "p + w \<le> 2 ^ 38"
    and fin: "field_in (mem t1) p w"
  shows "do {
        let v = val AND NOT (push_bit w (- 1));
        let i = p mod 2 ^ 64;
        let start = (i div 64) mod 2 ^ 32;
        let offset = (i mod 64) mod 2 ^ 8;
        let left = to_char (int offset + int w - 64);
        let msk = NOT (push_bit offset (NOT (push_bit w (- 1))));
        t2 \<leftarrow> mem_and start msk t1;
        t3 \<leftarrow> mem_or start (push_bit offset v) t2;
        t4 \<leftarrow> (if left > 0
               then do {
                 let msk = push_bit (nat left) (- 1);
                 t5 \<leftarrow> mem_and ((start + 1) mod 2 ^ 32) msk t3;
                 mem_or ((start + 1) mod 2 ^ 32) (drop_bit (nat (int w - left)) v) t5
               }
               else Some t3);
        K t4
      } = K (t1\<lparr>mem := field_set (mem t1) p w val\<rparr>)"
proof -
  have off: "p mod 64 < 64" by simp
  have pm: "p mod 2 ^ 64 = p" using plt by simp
  have om: "(p mod 64) mod 2 ^ 8 = p mod 64" by simp
  have s_in: "p div 64 < length (mem t1)"
    using fin by (simp add: field_in_def div_less_iff_less_mult)
  have sm: "(p div 64) mod 2 ^ 32 = p div 64"
    using plt by (simp add: div_less_iff_less_mult)
  have pq: "p = 64 * (p div 64) + p mod 64" by simp
  have l0: "to_char (int (p mod 64) + int w - 64) = int (p mod 64) + int w - 64"
    using off w by (intro to_char_id) simp_all
  show ?thesis
  proof (cases "p mod 64 + w \<le> 64")
    case True
    then have neg: "\<not> 0 < int (p mod 64) + int w - 64" by simp
    show ?thesis
      unfolding pm sm om Let_def l0 using True s_in neg
      by (simp add: vec_at_def vec_put_def mem_and_def mem_or_def field_set_def Let_def)
  next
    case False
    have n1: "nat (int w - (int (p mod 64) + int w - 64)) = 64 - p mod 64"
      using off by simp
    have n1': "w - (p mod 64 + w - 64) = 64 - p mod 64"
      using off False by simp
    have n2: "nat (int (p mod 64) + int w - 64) = p mod 64 + w - 64"
      using False by simp
    have "64 * (p div 64) + 64 < p + w" using pq False by linarith
    then have s1: "64 * (p div 64 + 1) < 2 ^ 38"
      and s1': "64 * (p div 64 + 1) < 64 * length (mem t1)"
      using p fin by (simp_all add: field_in_def)
    have s1m: "(p div 64 + 1) mod 2 ^ 32 = p div 64 + 1"
      using s1 by simp
    have s1_in: "p div 64 + 1 < length (mem t1)" using s1' by simp
    have pos: "0 < int (p mod 64) + int w - 64" using False by simp
    show ?thesis
      unfolding pm sm om Let_def l0 n1 n2 s1m using False s_in s1_in pos
      by (simp add: vec_at_def vec_put_def mem_and_def mem_or_def field_set_def Let_def n1')
  qed
qed

lemma and_8191_less: "unat ((index::u32) AND 8191) < 8192"
proof -
  have "unat (index AND 8191) \<le> unat (8191 :: u32)"
    by (rule word_and_le1 [THEN word_le_nat_alt [THEN iffD1]])
  then show ?thesis by simp
qed

lemma lock_incr_Some:
  assumes "length (lock t) = 8192"
  shows "lock_incr index t =
     Some (t\<lparr>lock := (lock t)[unat (index AND 8191) := lock t ! unat (index AND 8191) + 1]\<rparr>)"
  using assms and_8191_less [of index]
  by (simp add: lock_incr_def vec_at_def vec_put_def)

lemma lock_incr_twice:
  assumes "length (lock t) = 8192"
  shows "lock_incr index
     (t\<lparr>lock := (lock t)[unat (index AND 8191) := lock t ! unat (index AND 8191) + 1],
        mem := m\<rparr>) = Some (t\<lparr>mem := m, lock := bump2 index (lock t)\<rparr>)"
  using assms and_8191_less [of index]
  by (simp add: lock_incr_def vec_at_def vec_put_def bump2_def add.commute)

lemma slot_bounds:
  assumes "VCL t \<le> 64"
  shows "unat (index::u32) * VCL t < 2 ^ 38" and "unat index * VCL t + VCL t \<le> 2 ^ 38"
proof -
  have "unat index * VCL t \<le> (2 ^ 32 - 1) * 64"
    using u32_lt [of index] assms by (intro mult_mono) simp_all
  then show "unat index * VCL t < 2 ^ 38" and "unat index * VCL t + VCL t \<le> 2 ^ 38"
    using assms by simp_all
qed

lemma memValueSet_field:
  assumes nz: "0 < L t" and v: "VCL t \<le> 64"
    and fin: "field_in (mem t) (unat index * VCL t + CL t) (L t)"
    and ll: "length (lock t) = 8192"
  shows "memValueSet index val t =
     Some (t\<lparr>mem := field_set (mem t) (unat index * VCL t + CL t) (L t) val,
             lock := bump2 index (lock t)\<rparr>)"
proof -
  have l64: "L t \<le> 64" using v by (simp add: VCL_def)
  have b1: "unat index * VCL t + CL t < 2 ^ 38"
    and b2: "unat index * VCL t + CL t + L t \<le> 2 ^ 38"
    using slot_bounds [OF v, of index] nz by (simp_all add: VCL_def)
  have nz': "(L t = 0) = False" using nz by simp
  show ?thesis
    unfolding memValueSet_def VMASK_def
    apply (simp only: nz' if_False lock_incr_Some [OF ll] Option.bind.bind_lunit)
    apply (subst set_body [where K = "lock_incr index", OF l64 b1 b2])
     apply (simp add: fin)
    apply (simp add: lock_incr_twice [OF ll])
    done
qed

lemma memSet_field:
  assumes nz: "0 < VCL t" and v: "VCL t \<le> 64"
    and fin: "field_in (mem t) (unat index * VCL t) (VCL t)"
    and ll: "length (lock t) = 8192"
  shows "memSet index val t =
     Some (t\<lparr>mem := field_set (mem t) (unat index * VCL t) (VCL t) val,
             lock := bump2 index (lock t)\<rparr>)"
proof -
  have nz': "(VCL t = 0) = False" using nz by simp
  show ?thesis
    unfolding memSet_def VCMASK_def
    apply (simp only: nz' if_False lock_incr_Some [OF ll] Option.bind.bind_lunit)
    apply (subst set_body [where K = "lock_incr index", OF v slot_bounds [OF v]])
     apply (simp add: fin)
    apply (simp add: lock_incr_twice [OF ll])
    done
qed

subsection \<open>Reading after writing, and writing back\<close>

lemma mem_ext:
  assumes len: "length ws = length ws'"
    and bits: "\<And>q. q < 64 * length ws \<Longrightarrow> mem_bit ws q = mem_bit ws' q"
  shows "ws = ws'"
proof (rule nth_equalityI [OF len])
  fix i assume i: "i < length ws"
  show "ws ! i = ws' ! i"
  proof (rule bit_word_eqI)
    fix n assume "n < LENGTH(64)"
    then have n: "n < 64" by simp
    then have "64 * i + n < 64 * length ws" using i by simp
    from bits [OF this] show "bit (ws ! i) n = bit (ws' ! i) n"
      using n by (simp add: mem_bit_def)
  qed
qed

lemma field_get_set_same:
  assumes "w \<le> 64" and "field_in ws p w"
  shows "field_get (field_set ws p w v) p w = take_bit w v"
proof (rule bit_word_eqI)
  fix n assume "n < LENGTH(64)"
  show "bit (field_get (field_set ws p w v) p w) n = bit (take_bit w v) n"
  proof (cases "n < w")
    case True
    then have "p + n < 64 * length ws" using assms(2) by (simp add: field_in_def)
    then show ?thesis
      using True by (simp add: field_get_bit [OF assms(1)] field_set_bit [OF assms] bit_take_bit_iff)
  next
    case False
    then show ?thesis by (simp add: field_get_bit [OF assms(1)] bit_take_bit_iff)
  qed
qed

lemma field_get_set_other:
  assumes "w \<le> 64" and "field_in ws p w" and "w' \<le> 64" and "p' + w' \<le> 64 * length ws"
    and "p' + w' \<le> p \<or> p + w \<le> p'"
  shows "field_get (field_set ws p w v) p' w' = field_get ws p' w'"
proof (rule bit_word_eqI)
  fix n assume "n < LENGTH(64)"
  show "bit (field_get (field_set ws p w v) p' w') n = bit (field_get ws p' w') n"
  proof (cases "n < w'")
    case True
    then have "p' + n < 64 * length ws" using assms(4) by simp
    moreover have "\<not> (p \<le> p' + n \<and> p' + n < p + w)" using True assms(5) by auto
    ultimately show ?thesis
      by (auto simp add: field_get_bit [OF assms(3)] field_set_bit [OF assms(1,2)])
  next
    case False
    then show ?thesis by (simp add: field_get_bit [OF assms(3)])
  qed
qed

lemma field_get_less: 
  assumes "w \<le> 64" shows "take_bit w (field_get ws p w) = field_get ws p w"
  by (rule bit_word_eqI) (simp add: bit_take_bit_iff field_get_bit [OF assms])

lemma field_set_set:
  assumes "w \<le> 64" and "field_in ws p w"
  shows "field_set (field_set ws p w v) p w v' = field_set ws p w v'"
proof (rule mem_ext)
  show "length (field_set (field_set ws p w v) p w v') = length (field_set ws p w v')"
    by (simp add: length_field_set)
  have fin': "field_in (field_set ws p w v) p w"
    using assms(2) by (simp add: field_in_def length_field_set)
  fix q assume "q < 64 * length (field_set (field_set ws p w v) p w v')"
  then have q: "q < 64 * length ws" by (simp add: length_field_set)
  then have q': "q < 64 * length (field_set ws p w v)" by (simp add: length_field_set)
  show "mem_bit (field_set (field_set ws p w v) p w v') q = mem_bit (field_set ws p w v') q"
    by (simp add: field_set_bit [OF assms(1) fin' q'] field_set_bit [OF assms q])
qed

lemma field_set_get:
  assumes "w \<le> 64" and "field_in ws p w" and "take_bit w v = field_get ws p w"
  shows "field_set ws p w v = ws"
proof (rule mem_ext)
  show "length (field_set ws p w v) = length ws" by (simp add: length_field_set)
  fix q assume "q < 64 * length (field_set ws p w v)"
  then have q: "q < 64 * length ws" by (simp add: length_field_set)
  have "bit v (q - p) = mem_bit ws q" if "p \<le> q" "q < p + w"
  proof -
    have "bit (take_bit w v) (q - p) = bit (field_get ws p w) (q - p)"
      by (simp add: assms(3))
    moreover have "q - p < w" using that by simp
    ultimately show ?thesis
      using that by (simp add: bit_take_bit_iff field_get_bit [OF assms(1)])
  qed
  then show "mem_bit (field_set ws p w v) q = mem_bit ws q"
    by (simp add: field_set_bit [OF assms(1,2) q])
qed

subsection \<open>Slots of a valid table\<close>

lemma slot_end:
  assumes "valid_table t" and "in_bounds t j"
  shows "unat j * VCL t + VCL t \<le> 64 * length (mem t)"
proof -
  have "(unat j + 1) * VCL t \<le> (unat (ma t) + unat (mb t)) * VCL t"
    using assms(2) by (intro mult_le_mono1) (simp add: in_bounds_def)
  then show ?thesis
    using assms(1) by (simp add: valid_table_def mem_covers_def)
qed

lemma slot_field_in:
  assumes "valid_table t" and "in_bounds t j"
  shows "field_in (mem t) (unat j * VCL t) (VCL t)"
proof -
  have "0 < 64 * length (mem t)"
    using assms(1) by (simp add: valid_table_def mem_covers_def)
  then have "unat j * VCL t < 64 * length (mem t)"
    using slot_end [OF assms] by (cases "VCL t = 0") simp_all
  then show ?thesis
    using slot_end [OF assms] by (simp add: field_in_def)
qed

lemma value_field_in:
  assumes "valid_table t" and "in_bounds t j" and "0 < L t"
  shows "field_in (mem t) (unat j * VCL t + CL t) (L t)"
  using slot_end [OF assms(1,2)] assms(3) by (simp add: field_in_def VCL_def)

lemma valid_VCL: "valid_table t \<Longrightarrow> VCL t \<le> 64"
  by (simp add: valid_table_def)

lemma valid_L: "valid_table t \<Longrightarrow> L t \<le> 64"
  by (simp add: valid_table_def VCL_def)

lemma valid_lock: "valid_table t \<Longrightarrow> length (lock t) = 8192"
  by (simp add: valid_table_def)

lemma memGet_valid:
  assumes "valid_table t" and "in_bounds t j"
  shows "memGet t j = Some (field_get (mem t) (unat j * VCL t) (VCL t))"
  by (rule memGet_field [OF valid_VCL [OF assms(1)] slot_field_in [OF assms]])

lemma memValueGet_valid:
  assumes "valid_table t" and "in_bounds t j"
  shows "memValueGet t j = Some (field_get (mem t) (unat j * VCL t + CL t) (L t))"
proof (cases "L t = 0")
  case True
  then show ?thesis by (simp add: memValueGet_def field_get_def)
next
  case False
  then show ?thesis
    by (intro memValueGet_field valid_VCL assms value_field_in) simp
qed

lemma memValueSet_valid:
  assumes "valid_table t" and "in_bounds t j"
  shows "memValueSet j val t =
     Some (if L t = 0 then t
           else t\<lparr>mem := field_set (mem t) (unat j * VCL t + CL t) (L t) val,
                   lock := bump2 j (lock t)\<rparr>)"
proof (cases "L t = 0")
  case True
  then show ?thesis by (simp add: memValueSet_def)
next
  case False
  then have "0 < L t" by simp
  from memValueSet_field [OF this valid_VCL [OF assms(1)] value_field_in [OF assms this]
      valid_lock [OF assms(1)], of val]
  show ?thesis using False by simp
qed

lemma valid_after_set:
  assumes "valid_table t"
  shows "valid_table (t\<lparr>mem := field_set (mem t) p w val, lock := bump2 j (lock t)\<rparr>)"
  using assms
  by (simp add: valid_table_def mem_covers_def VCL_def length_field_set bump2_def
      flip: length_greater_0_conv)

lemma take_bit_fits:
  assumes "unat (v::u64) < 2 ^ n"
  shows "take_bit n v = v"
  using assms by (simp add: word_unat_eq_iff unsigned_take_bit_eq take_bit_nat_eq_self_iff)

text \<open>
  Claim C2, for \<open>L < 64\<close>. For every slot index below \<open>ma + mb\<close> of a table whose
  packed memory holds all slots, and every value \<open>v\<close> in \<open>[0, 2^L)\<close>,
  \<open>memValueSet(index, v)\<close> followed by \<open>memValueGet(index)\<close> returns exactly \<open>v\<close>.
  The value field may lie in one word or straddle two: the witness is a slot whose 20-bit
  value field starts at bit 52 of the first word. With \<open>L < 64\<close> no shift in the two
  accessors has a count of 64; at \<open>L = 64\<close> the source computes \<open>VMASK\<close> and the read
  mask by a shift of a \<open>uint64_t\<close> by 64, which C++ leaves undefined, and the theorem
  says nothing about that instantiation.
\<close>

theorem memValue_roundtrip:
  assumes "valid_table t" and "in_bounds t index" and "unat v < 2 ^ L t" and "L t < 64"
  shows "(memValueSet index v t \<bind> (\<lambda>t'. memValueGet t' index)) = Some v"
proof (cases "L t = 0")
  case True
  then have "v = 0" using assms(3) by (simp add: unat_eq_0)
  then show ?thesis
    using True by (simp add: memValueSet_def memValueGet_def)
next
  case False
  let ?p = "unat index * VCL t + CL t"
  let ?t' = "t\<lparr>mem := field_set (mem t) ?p (L t) v, lock := bump2 index (lock t)\<rparr>"
  have set: "memValueSet index v t = Some ?t'"
    using memValueSet_valid [OF assms(1,2), of v] False by simp
  have v': "valid_table ?t'" by (rule valid_after_set [OF assms(1)])
  have ib: "in_bounds ?t' index" using assms(2) by (simp add: in_bounds_def)
  have "memValueGet ?t' index = Some (field_get (field_set (mem t) ?p (L t) v) ?p (L t))"
    using memValueGet_valid [OF v' ib] by (simp add: VCL_def)
  also have "field_get (field_set (mem t) ?p (L t) v) ?p (L t) = take_bit (L t) v"
    using False by (intro field_get_set_same valid_L assms value_field_in) simp
  also have "take_bit (L t) v = v" by (rule take_bit_fits [OF assms(3)])
  finally show ?thesis by (simp add: set)
qed

theorem memValue_roundtrip_witness:
  "valid_table straddle_table \<and> in_bounds straddle_table 2
   \<and> unat (0xABCDE :: u64) < 2 ^ L straddle_table \<and> L straddle_table < 64
   \<and> 64 < (unat (2 :: u32) * VCL straddle_table + CL straddle_table) mod 64 + L straddle_table
   \<and> (memValueSet 2 0xABCDE straddle_table \<bind> (\<lambda>t'. memValueGet t' 2)) = Some 0xABCDE"
  using memValue_roundtrip [of straddle_table 2 "0xABCDE"]
  by (simp add: straddle_table_def valid_table_def mem_covers_def in_bounds_def VCL_def)

section \<open>Repair primitives\<close>

lemma fixSingle_valid:
  assumes "valid_table t" and "in_bounds t j"
  shows "fixSingle j x t =
     Some (if L t = 0 then t
           else t\<lparr>mem := field_set (mem t) (unat j * VCL t + CL t) (L t)
                            (x XOR field_get (mem t) (unat j * VCL t + CL t) (L t)),
                   lock := bump2 j (lock t)\<rparr>)"
  by (simp add: fixSingle_def memValueGet_valid [OF assms] memValueSet_valid [OF assms])

lemma xor_patch_twice:
  assumes "take_bit w g = g"
  shows "take_bit w (x XOR take_bit w (x XOR g)) = (g :: u64)"
proof (rule bit_word_eqI)
  fix n assume "n < LENGTH(64)"
  have "bit g n \<Longrightarrow> n < w"
    using assms by (metis bit_take_bit_iff)
  then show "bit (take_bit w (x XOR take_bit w (x XOR g))) n = bit g n"
    by (auto simp add: bit_take_bit_iff bit_xor_iff)
qed


text \<open>
  Claim C10, for \<open>L < 64\<close> (where no shift in \<open>memValueGet\<close> and \<open>memValueSet\<close> has
  a count of 64). For every slot index below \<open>ma + mb\<close> and every 64-bit \<open>x\<close>, two calls
  \<open>fixSingle(index, x)\<close> in succession restore the value sub-field of the slot and
  leave the rest of the packed memory unchanged: the packed memory after the two calls is
  the packed memory before them. Of the whole table only the version counter of the slot
  has changed (by four).
\<close>

theorem fixSingle_twice:
  assumes "valid_table t" and "in_bounds t index" and "L t < 64"
  shows "(fixSingle index x t \<bind> fixSingle index x) =
           Some (if L t = 0 then t else t\<lparr>lock := bump2 index (bump2 index (lock t))\<rparr>)
       \<and> (fixSingle index x t \<bind> fixSingle index x \<bind> (\<lambda>t''. Some (mem t''))) = Some (mem t)
       \<and> (fixSingle index x t \<bind> fixSingle index x \<bind> (\<lambda>t''. memValueGet t'' index))
           = memValueGet t index"
proof (cases "L t = 0")
  case True
  then show ?thesis by (simp add: fixSingle_valid [OF assms(1,2)])
next
  case False
  let ?p = "unat index * VCL t + CL t"
  let ?g = "field_get (mem t) ?p (L t)"
  let ?m1 = "field_set (mem t) ?p (L t) (x XOR ?g)"
  let ?t1 = "t\<lparr>mem := ?m1, lock := bump2 index (lock t)\<rparr>"
  have l64: "L t \<le> 64" by (rule valid_L [OF assms(1)])
  have fin: "field_in (mem t) ?p (L t)"
    using False by (intro value_field_in assms(1,2)) simp
  have one: "fixSingle index x t = Some ?t1"
    using False by (simp add: fixSingle_valid [OF assms(1,2)])
  have v1: "valid_table ?t1" by (rule valid_after_set [OF assms(1)])
  have ib1: "in_bounds ?t1 index" using assms(2) by (simp add: in_bounds_def)
  have vcl1: "VCL ?t1 = VCL t" by (simp add: VCL_def)
  have g1: "field_get ?m1 ?p (L t) = take_bit (L t) (x XOR ?g)"
    by (rule field_get_set_same [OF l64 fin])
  have restored: "field_set ?m1 ?p (L t) (x XOR field_get ?m1 ?p (L t)) = mem t"
    unfolding g1 field_set_set [OF l64 fin]
    by (rule field_set_get [OF l64 fin xor_patch_twice [OF field_get_less [OF l64]]])
  have "fixSingle index x ?t1 =
      Some (t\<lparr>mem := field_set ?m1 ?p (L t) (x XOR field_get ?m1 ?p (L t)),
              lock := bump2 index (bump2 index (lock t))\<rparr>)"
    using False fixSingle_valid [OF v1 ib1, of x] by (simp add: vcl1)
  then have two: "fixSingle index x ?t1 = Some (t\<lparr>lock := bump2 index (bump2 index (lock t))\<rparr>)"
    unfolding restored by simp
  let ?t2 = "t\<lparr>lock := bump2 index (bump2 index (lock t))\<rparr>"
  have v2: "valid_table ?t2"
    using assms(1) by (simp add: valid_table_def mem_covers_def VCL_def bump2_def)
  have ib2: "in_bounds ?t2 index" using assms(2) by (simp add: in_bounds_def)
  have same: "memValueGet ?t2 index = memValueGet t index"
    by (simp add: memValueGet_valid [OF v2 ib2] memValueGet_valid [OF assms(1,2)] VCL_def)
  show ?thesis
    using False by (simp add: one two same)
qed

theorem fixSingle_twice_witness:
  "valid_table straddle_table \<and> in_bounds straddle_table 2 \<and> L straddle_table < 64
   \<and> (fixSingle 2 0xDEADBEEF straddle_table \<bind> fixSingle 2 0xDEADBEEF \<bind> (\<lambda>t''. Some (mem t'')))
       = Some [0x0123456789ABCDEF, 0xFEDCBA9876543210]"
  using fixSingle_twice [of straddle_table 2 "0xDEADBEEF"]
  by (simp add: straddle_table_def valid_table_def mem_covers_def in_bounds_def VCL_def)

lemma slots_disjoint:
  assumes "unat (i::u32) \<noteq> unat (j::u32)"
  shows "unat j * VCL t + VCL t \<le> unat i * VCL t + CL t
       \<or> unat i * VCL t + CL t + L t \<le> unat j * VCL t"
proof (cases "unat i < unat j")
  case True
  then have "(unat i + 1) * VCL t \<le> unat j * VCL t"
    by (intro mult_le_mono1) simp
  then show ?thesis by (simp add: VCL_def)
next
  case False
  then have "(unat j + 1) * VCL t \<le> unat i * VCL t"
    using assms by (intro mult_le_mono1) simp
  then show ?thesis by simp
qed

lemma value_slots_disjoint:
  assumes "unat (i::u32) \<noteq> unat (j::u32)"
  shows "unat j * VCL t + CL t + L t \<le> unat i * VCL t + CL t
       \<or> unat i * VCL t + CL t + L t \<le> unat j * VCL t + CL t"
proof (cases "unat i < unat j")
  case True
  then have "(unat i + 1) * VCL t \<le> unat j * VCL t"
    by (intro mult_le_mono1) simp
  then show ?thesis by (simp add: VCL_def)
next
  case False
  then have "(unat j + 1) * VCL t \<le> unat i * VCL t"
    using assms by (intro mult_le_mono1) simp
  then show ?thesis by (simp add: VCL_def)
qed

lemma fixSingle_effect:
  assumes v: "valid_table t" and ib: "in_bounds t i"
  obtains t1 where "fixSingle i x t = Some t1" and "valid_table t1"
    and "L t1 = L t" and "CL t1 = CL t" and "ma t1 = ma t" and "mb t1 = mb t"
    and "memValueGet t1 i = map_option (\<lambda>g. g XOR take_bit (L t) x) (memValueGet t i)"
    and "\<And>j. in_bounds t j \<Longrightarrow> j \<noteq> i \<Longrightarrow> memGet t1 j = memGet t j"
    and "\<And>j. in_bounds t j \<Longrightarrow> j \<noteq> i \<Longrightarrow> memValueGet t1 j = memValueGet t j"
proof (cases "L t = 0")
  case True
  show ?thesis
  proof (rule that [of t])
    show "fixSingle i x t = Some t" using True by (simp add: fixSingle_valid [OF v ib])
    show "memValueGet t i = map_option (\<lambda>g. g XOR take_bit (L t) x) (memValueGet t i)"
      using True by (simp add: memValueGet_def)
  qed (simp_all add: v)
next
  case False
  let ?p = "unat i * VCL t + CL t"
  let ?g = "field_get (mem t) ?p (L t)"
  let ?m1 = "field_set (mem t) ?p (L t) (x XOR ?g)"
  let ?t1 = "t\<lparr>mem := ?m1, lock := bump2 i (lock t)\<rparr>"
  have l64: "L t \<le> 64" by (rule valid_L [OF v])
  have v64: "VCL t \<le> 64" by (rule valid_VCL [OF v])
  have fin: "field_in (mem t) ?p (L t)"
    using False by (intro value_field_in v ib) simp
  have v1: "valid_table ?t1" by (rule valid_after_set [OF v])
  have vcl1: "VCL ?t1 = VCL t" by (simp add: VCL_def)
  have ib1: "in_bounds ?t1 j" if "in_bounds t j" for j
    using that by (simp add: in_bounds_def)
  show ?thesis
  proof (rule that [of ?t1])
    show "fixSingle i x t = Some ?t1"
      using False by (simp add: fixSingle_valid [OF v ib])
    show "valid_table ?t1" by (rule v1)
    have "take_bit (L t) (x XOR ?g) = ?g XOR take_bit (L t) x"
      using field_get_less [OF l64, of "mem t" ?p] by (simp add: xor.commute)
    then show "memValueGet ?t1 i = map_option (\<lambda>g. g XOR take_bit (L t) x) (memValueGet t i)"
      by (simp add: memValueGet_valid [OF v ib] memValueGet_valid [OF v1 ib1 [OF ib]] vcl1
          field_get_set_same [OF l64 fin])
  next
    fix j assume j: "in_bounds t j" and ne: "j \<noteq> i"
    then have ne': "unat i \<noteq> unat j" by (simp add: word_unat_eq_iff)
    have "field_get ?m1 (unat j * VCL t) (VCL t) = field_get (mem t) (unat j * VCL t) (VCL t)"
      using slots_disjoint [OF ne', of t]
      by (intro field_get_set_other l64 fin v64 slot_end [OF v j]) simp
    then show "memGet ?t1 j = memGet t j"
      by (simp add: memGet_valid [OF v j] memGet_valid [OF v1 ib1 [OF j]] vcl1)
    have "unat j * VCL t + CL t + L t \<le> 64 * length (mem t)"
      using slot_end [OF v j] by (simp add: VCL_def)
    then have "field_get ?m1 (unat j * VCL t + CL t) (L t)
        = field_get (mem t) (unat j * VCL t + CL t) (L t)"
      using value_slots_disjoint [OF ne', of t]
      by (intro field_get_set_other l64 fin) simp_all
    then show "memValueGet ?t1 j = memValueGet t j"
      by (simp add: memValueGet_valid [OF v j] memValueGet_valid [OF v1 ib1 [OF j]] vcl1)
  qed simp_all
qed

lemma fixHalfTree_effect:
  assumes "valid_table t" and "distinct indices" and "\<forall>i \<in> set indices. in_bounds t i"
  shows "\<exists>t'. fixHalfTreeByConnectedComponent indices d t = Some t'
     \<and> valid_table t' \<and> L t' = L t \<and> CL t' = CL t \<and> ma t' = ma t \<and> mb t' = mb t
     \<and> (\<forall>i \<in> set indices.
           memValueGet t' i = map_option (\<lambda>g. g XOR take_bit (L t) (ucast d)) (memValueGet t i))
     \<and> (\<forall>j. in_bounds t j \<and> j \<notin> set indices \<longrightarrow>
           memGet t' j = memGet t j \<and> memValueGet t' j = memValueGet t j)"
  using assms
proof (induction indices arbitrary: t)
  case Nil
  then show ?case by simp
next
  case (Cons i indices)
  have ib: "in_bounds t i" using Cons.prems(3) by simp
  from fixSingle_effect [OF Cons.prems(1) ib, of "ucast d"]
  obtain t1 where one: "fixSingle i (ucast d) t = Some t1" and v1: "valid_table t1"
    and shape: "L t1 = L t" "CL t1 = CL t" "ma t1 = ma t" "mb t1 = mb t"
    and here: "memValueGet t1 i = map_option (\<lambda>g. g XOR take_bit (L t) (ucast d)) (memValueGet t i)"
    and frameG: "\<And>j. in_bounds t j \<Longrightarrow> j \<noteq> i \<Longrightarrow> memGet t1 j = memGet t j"
    and frameV: "\<And>j. in_bounds t j \<Longrightarrow> j \<noteq> i \<Longrightarrow> memValueGet t1 j = memValueGet t j"
    by blast
  have ib_eq: "in_bounds t1 j = in_bounds t j" for j
    by (simp add: in_bounds_def shape)
  have d: "distinct indices" and ni: "i \<notin> set indices" using Cons.prems(2) by simp_all
  have ibs: "\<forall>k \<in> set indices. in_bounds t1 k" using Cons.prems(3) by (simp add: ib_eq)
  from Cons.IH [OF v1 d ibs]
  obtain t' where rest: "fixHalfTreeByConnectedComponent indices d t1 = Some t'"
    and v': "valid_table t'"
    and shape': "L t' = L t1" "CL t' = CL t1" "ma t' = ma t1" "mb t' = mb t1"
    and listed: "\<forall>k \<in> set indices.
           memValueGet t' k = map_option (\<lambda>g. g XOR take_bit (L t1) (ucast d)) (memValueGet t1 k)"
    and others: "\<forall>j. in_bounds t1 j \<and> j \<notin> set indices \<longrightarrow>
           memGet t' j = memGet t1 j \<and> memValueGet t' j = memValueGet t1 j"
    by blast
  have run: "fixHalfTreeByConnectedComponent (i # indices) d t = Some t'"
    by (simp add: one rest)
  have head: "memValueGet t' i = map_option (\<lambda>g. g XOR take_bit (L t) (ucast d)) (memValueGet t i)"
    using others ib ni by (simp add: ib_eq here)
  have tail: "memValueGet t' k = map_option (\<lambda>g. g XOR take_bit (L t) (ucast d)) (memValueGet t k)"
    if "k \<in> set indices" for k
  proof -
    have "k \<noteq> i" using that ni by auto
    moreover have "in_bounds t k" using Cons.prems(3) that by simp
    ultimately show ?thesis using listed that by (simp add: shape frameV)
  qed
  have out: "memGet t' j = memGet t j \<and> memValueGet t' j = memValueGet t j"
    if "in_bounds t j" and "j \<notin> set (i # indices)" for j
    using that others by (simp add: ib_eq frameG frameV)
  show ?case
    using run v' shape shape' head tail out by auto
qed

lemma fixSingle_mem_frame:
  assumes v: "valid_table t" and ib: "in_bounds t i" and one: "fixSingle i x t = Some t1"
  shows "length (mem t1) = length (mem t)"
    and "\<And>q. q < 64 * length (mem t) \<Longrightarrow>
           \<not> (unat i * VCL t + CL t \<le> q \<and> q < unat i * VCL t + CL t + L t) \<Longrightarrow>
           mem_bit (mem t1) q = mem_bit (mem t) q"
proof -
  let ?p = "unat i * VCL t + CL t"
  let ?g = "field_get (mem t) ?p (L t)"
  have t1: "t1 = (if L t = 0 then t
      else t\<lparr>mem := field_set (mem t) ?p (L t) (x XOR ?g), lock := bump2 i (lock t)\<rparr>)"
    using one fixSingle_valid [OF v ib, of x] by simp
  show "length (mem t1) = length (mem t)"
    by (simp add: t1 length_field_set)
  fix q
  assume q: "q < 64 * length (mem t)" and out: "\<not> (?p \<le> q \<and> q < ?p + L t)"
  show "mem_bit (mem t1) q = mem_bit (mem t) q"
  proof (cases "L t = 0")
    case True
    then show ?thesis by (simp add: t1)
  next
    case False
    then have fin: "field_in (mem t) ?p (L t)"
      by (intro value_field_in v ib) simp
    show ?thesis
      using False out by (auto simp add: t1 field_set_bit [OF valid_L [OF v] fin q])
  qed
qed

lemma fixHalfTree_mem_frame:
  assumes "valid_table t" and "\<forall>i \<in> set indices. in_bounds t i"
    and "fixHalfTreeByConnectedComponent indices d t = Some t'"
  shows "length (mem t') = length (mem t)
     \<and> (\<forall>q. q < 64 * length (mem t) \<and>
            (\<forall>i \<in> set indices.
               \<not> (unat i * VCL t + CL t \<le> q \<and> q < unat i * VCL t + CL t + L t)) \<longrightarrow>
            mem_bit (mem t') q = mem_bit (mem t) q)"
  using assms
proof (induction indices arbitrary: t)
  case Nil
  then show ?case by simp
next
  case (Cons i indices)
  have ib: "in_bounds t i" using Cons.prems(2) by simp
  from fixSingle_effect [OF Cons.prems(1) ib, of "ucast d"]
  obtain t1 where one: "fixSingle i (ucast d) t = Some t1" and v1: "valid_table t1"
    and shape: "L t1 = L t" "CL t1 = CL t" "ma t1 = ma t" "mb t1 = mb t"
    by blast
  have vcl: "VCL t1 = VCL t" by (simp add: VCL_def shape)
  have rest: "fixHalfTreeByConnectedComponent indices d t1 = Some t'"
    using Cons.prems(3) by (simp add: one)
  have ibs: "\<forall>k \<in> set indices. in_bounds t1 k"
    using Cons.prems(2) by (simp add: in_bounds_def shape)
  note f1 = fixSingle_mem_frame [OF Cons.prems(1) ib one]
  note IH = Cons.IH [OF v1 ibs rest]
  show ?case
    using IH f1 by (auto simp add: vcl shape)
qed

text \<open>
  Claim C6, for \<open>L < 64\<close> (where no shift in \<open>memValueGet\<close> and \<open>memValueSet\<close> has a
  count of 64). For every list of pairwise distinct slot indices below \<open>ma + mb\<close> and
  every delta \<open>d\<close>, \<open>fixHalfTreeByConnectedComponent(indices, d)\<close> returns, and
  afterwards the value sub-field of each listed slot is its previous value XOR the low
  \<open>L\<close> bits of \<open>d\<close>, and every slot not listed is unchanged: its value sub-field reads
  as before, each of its \<open>VCL\<close> bits in the packed memory is as before, and (for
  \<open>VCL < 64\<close>, where the mask of \<open>memGet\<close> is no shift by 64) \<open>memGet\<close> reads it as
  before.
\<close>

theorem fixHalfTreeByConnectedComponent_xor:
  assumes "valid_table t" and "distinct indices" and "\<forall>i \<in> set indices. in_bounds t i"
    and "L t < 64"
  shows "\<exists>t'. fixHalfTreeByConnectedComponent indices d t = Some t'
     \<and> (\<forall>i \<in> set indices.
           memValueGet t' i = map_option (\<lambda>g. g XOR take_bit (L t) (ucast d)) (memValueGet t i))
     \<and> (\<forall>j. in_bounds t j \<and> j \<notin> set indices \<longrightarrow>
           memValueGet t' j = memValueGet t j
           \<and> (\<forall>n < VCL t. mem_bit (mem t') (unat j * VCL t + n)
                           = mem_bit (mem t) (unat j * VCL t + n))
           \<and> (VCL t < 64 \<longrightarrow> memGet t' j = memGet t j))"
proof -
  from fixHalfTree_effect [OF assms(1,2,3), of d]
  obtain t' where run: "fixHalfTreeByConnectedComponent indices d t = Some t'"
    and listed: "\<forall>i \<in> set indices.
           memValueGet t' i = map_option (\<lambda>g. g XOR take_bit (L t) (ucast d)) (memValueGet t i)"
    and others: "\<forall>j. in_bounds t j \<and> j \<notin> set indices \<longrightarrow>
           memGet t' j = memGet t j \<and> memValueGet t' j = memValueGet t j"
    by blast
  note frame = fixHalfTree_mem_frame [OF assms(1,3) run]
  have bits: "mem_bit (mem t') (unat j * VCL t + n) = mem_bit (mem t) (unat j * VCL t + n)"
    if j: "in_bounds t j" and nj: "j \<notin> set indices" and n: "n < VCL t" for j n
  proof -
    have q: "unat j * VCL t + n < 64 * length (mem t)"
      using slot_end [OF assms(1) j] n by simp
    have "\<not> (unat i * VCL t + CL t \<le> unat j * VCL t + n
            \<and> unat j * VCL t + n < unat i * VCL t + CL t + L t)" if "i \<in> set indices" for i
    proof -
      have "i \<noteq> j" using that nj by auto
      then have "unat i \<noteq> unat j" by (simp add: word_unat_eq_iff)
      from slots_disjoint [OF this, of t] show ?thesis using n by auto
    qed
    then show ?thesis using frame q by blast
  qed
  show ?thesis
    using run listed others bits by blast
qed

lemma component_valid: "valid_table component_table"
  by (simp add: component_table_def valid_table_def mem_covers_def VCL_def)

lemma component_values:
  "memValueGet component_table 2 = Some 3" "memValueGet component_table 5 = Some 6"
  "memValueGet component_table 7 = Some 8" "memGet component_table 0 = Some 1"
  by (simp_all add: memValueGet_def memGet_def component_table_def VCL_def Let_def to_char_def
      vec_at_def mask_eq_exp_minus_1)

theorem fixHalfTreeByConnectedComponent_xor_witness:
  "valid_table component_table \<and> distinct [2, 5, 7 :: u32]
   \<and> in_bounds component_table 2 \<and> in_bounds component_table 5 \<and> in_bounds component_table 7
   \<and> L component_table < 64 \<and> VCL component_table < 64
   \<and> in_bounds component_table 0
   \<and> (\<exists>t'. fixHalfTreeByConnectedComponent [2, 5, 7] 0b1011 component_table = Some t'
        \<and> memValueGet t' 2 = Some (3 XOR 0b1011)
        \<and> memValueGet t' 5 = Some (6 XOR 0b1011)
        \<and> memValueGet t' 7 = Some (8 XOR 0b1011)
        \<and> memValueGet t' 0 = Some 1
        \<and> mem_bit (mem t') 0 = mem_bit (mem component_table) 0
        \<and> memGet t' 0 = Some 1)"
proof -
  have ib: "in_bounds component_table 2" "in_bounds component_table 5"
    "in_bounds component_table 7" "in_bounds component_table 0"
    by (simp_all add: in_bounds_def component_table_def)
  have ibs: "\<forall>i \<in> set [2, 5, 7]. in_bounds component_table i"
    using ib by simp
  have d: "distinct [2, 5, 7 :: u32]" by simp
  have L8: "L component_table = 8" "VCL component_table = 8"
    by (simp_all add: component_table_def VCL_def)
  have l64: "L component_table < 64" by (simp add: L8)
  have v0: "memValueGet component_table 0 = Some 1"
    by (simp add: memValueGet_def component_table_def VCL_def Let_def to_char_def
      vec_at_def mask_eq_exp_minus_1)
  from fixHalfTreeByConnectedComponent_xor [OF component_valid d ibs l64, of "0b1011"]
  obtain t' where run: "fixHalfTreeByConnectedComponent [2, 5, 7] 0b1011 component_table = Some t'"
    and l: "\<forall>i \<in> set [2, 5, 7].
           memValueGet t' i = map_option (\<lambda>g. g XOR take_bit (L component_table) (ucast (0b1011::u32)))
             (memValueGet component_table i)"
    and o: "\<forall>j. in_bounds component_table j \<and> j \<notin> set [2, 5, 7] \<longrightarrow>
           memValueGet t' j = memValueGet component_table j
           \<and> (\<forall>n < VCL component_table. mem_bit (mem t') (unat j * VCL component_table + n)
                = mem_bit (mem component_table) (unat j * VCL component_table + n))
           \<and> (VCL component_table < 64 \<longrightarrow> memGet t' j = memGet component_table j)"
    by blast
  have o0: "memValueGet t' 0 = memValueGet component_table 0
     \<and> (\<forall>n < VCL component_table. mem_bit (mem t') (unat (0::u32) * VCL component_table + n)
                = mem_bit (mem component_table) (unat (0::u32) * VCL component_table + n))
     \<and> (VCL component_table < 64 \<longrightarrow> memGet t' 0 = memGet component_table 0)"
    using o [rule_format, of 0] ib(4) by simp
  then have b0: "mem_bit (mem t') 0 = mem_bit (mem component_table) 0"
    using L8 by simp
  show ?thesis
    using run l o0 b0 ib component_valid by (auto simp add: component_values L8 v0)
qed

section \<open>Lookup\<close>

lemma lookUp_loop_result:
  assumes "lookUp_loop t ha hb = Some r"
  shows "fst (snd r) = True \<and> snd (snd r) = t \<and> CL t = 0"
proof (rule lookUp_loop.raw_induct
    [where P = "\<lambda>t ha hb r. fst (snd r) = True \<and> snd (snd r) = t \<and> CL t = 0", OF _ assms],
    goal_cases)
  case (1 f t ha hb r)
  from 1(2) show ?case
    using 1(1) [of t ha hb r]
    by (auto simp add: incr_u16_at_def Let_def split: Option.bind_splits if_splits)
qed

lemma lookUp_loop_even:
  assumes "length (lock t) = 8192"
    and "unat (lock t ! unat (ha AND 8191)) mod 2 = 0"
    and "unat (lock t ! unat (hb AND 8191)) mod 2 = 0"
    and "memGet t ha = Some aa" and "memGet t hb = Some bb" and "CL t = 0"
  shows "lookUp_loop t ha hb = Some (ucast (aa XOR bb), True, t)"
  using assms and_8191_less [of ha] and_8191_less [of hb]
  by (subst lookUp_loop.simps) (simp add: vec_at_def)

lemma lookUp_loop_stray:
  assumes "length (lock t) = 8192"
    and "unat (lock t ! unat (ha AND 8191)) mod 2 = 0"
    and "unat (lock t ! unat (hb AND 8191)) mod 2 = 0"
    and "memGet t ha = Some aa" and "memGet t hb = Some bb" and "CL t \<noteq> 0"
  shows "lookUp_loop t ha hb = None"
  using assms and_8191_less [of ha] and_8191_less [of hb]
  by (subst lookUp_loop.simps) (simp add: vec_at_def incr_u16_at_def)

lemma getIndices_in_bounds:
  assumes "0 < unat (mb t)"
  shows "in_bounds t (fst (getIndices t k))" and "in_bounds t (snd (getIndices t k))"
proof -
  show "in_bounds t (fst (getIndices t k))"
  proof (cases "unat (ma t) = 0")
    case True
    then show ?thesis using assms by (simp add: in_bounds_def getIndices_a)
  next
    case False
    then have "unat (fst (getIndices t k)) < unat (ma t)"
      by (intro getIndices_a_less) simp
    then show ?thesis by (simp add: in_bounds_def)
  qed
  show "in_bounds t (snd (getIndices t k))"
    using getIndices_b_less [OF assms, of k] by (simp add: in_bounds_def)
qed

lemma all_even_nth:
  assumes "all_even ls" and "j < length ls"
  shows "unat (ls ! j) mod 2 = 0"
  using assms by (simp add: all_even_def)

lemma lookUp_CL0:
  assumes v: "valid_table t" and ev: "all_even (lock t)" and c0: "CL t = 0"
    and a: "in_bounds t (fst (getIndices t k))" and b: "in_bounds t (snd (getIndices t k))"
  shows "lookUp t k = Some (ucast (field_get (mem t) (unat (fst (getIndices t k)) * VCL t) (VCL t)
                              XOR field_get (mem t) (unat (snd (getIndices t k)) * VCL t) (VCL t)),
                            True, t)"
proof -
  have ll: "length (lock t) = 8192" by (rule valid_lock [OF v])
  have e: "unat (lock t ! unat (h AND 8191)) mod 2 = 0" for h :: u32
    using and_8191_less [of h] by (intro all_even_nth [OF ev]) (simp add: ll)
  show ?thesis
    unfolding lookUp_def
    by (simp add: case_prod_beta
        lookUp_loop_even [OF ll e e memGet_valid [OF v a] memGet_valid [OF v b] c0])
qed

lemma field_get_bound:
  assumes "w \<le> 64" and "w \<le> n"
  shows "unat (field_get ws p w XOR field_get ws p' w) < 2 ^ n"
proof -
  have "take_bit w (field_get ws p w XOR field_get ws p' w)
      = field_get ws p w XOR field_get ws p' w"
    by (simp add: field_get_less [OF assms(1)])
  then have "unat (field_get ws p w XOR field_get ws p' w)
      = take_bit w (unat (field_get ws p w XOR field_get ws p' w))"
    by (metis unsigned_take_bit_eq)
  also have "\<dots> < 2 ^ w" by simp
  also have "(2::nat) ^ w \<le> 2 ^ n" using assms(2) by simp
  finally show ?thesis .
qed

lemma ucast_fits:
  assumes "unat (x::u64) < 2 ^ LENGTH('v::len)"
  shows "unat (ucast x :: 'v word) = unat x"
  using assms by (simp add: unsigned_ucast_eq take_bit_nat_eq_self_iff)

text \<open>
  Claim C1, amended. For every key \<open>k\<close>, on a table with \<open>CL = 0\<close> and \<open>mb \<ge> 1\<close> whose
  version counters are all even and whose packed memory holds all \<open>ma + mb\<close> slots,
  \<open>lookUp(k, v)\<close> reads the slots \<open>aIdx\<close> and \<open>bIdx\<close> of \<open>getIndices\<close> with \<open>memGet\<close>,
  assigns \<open>(memGet(aIdx) XOR memGet(bIdx)) >> CL\<close> to \<open>v\<close> (converted to \<open>V\<close>, which
  keeps the number when \<open>V\<close> has at least \<open>L\<close> bits), returns true, and leaves the table
  as it was.
\<close>

theorem lookUp_xor:
  assumes "valid_table t" and "all_even (lock t)" and "CL t = 0" and "0 < unat (mb t)"
  shows "\<exists>aa bb. memGet t (fst (getIndices t k)) = Some aa
         \<and> memGet t (snd (getIndices t k)) = Some bb
         \<and> lookUp t k = Some (ucast (drop_bit (CL t) (aa XOR bb)) :: 'v::len word, True, t)
         \<and> (L t \<le> LENGTH('v) \<longrightarrow>
              unat (ucast (drop_bit (CL t) (aa XOR bb)) :: 'v word)
                = unat (drop_bit (CL t) (aa XOR bb)))"
proof -
  note ib = getIndices_in_bounds [OF assms(4), of k]
  let ?aa = "field_get (mem t) (unat (fst (getIndices t k)) * VCL t) (VCL t)"
  let ?bb = "field_get (mem t) (unat (snd (getIndices t k)) * VCL t) (VCL t)"
  have a: "memGet t (fst (getIndices t k)) = Some ?aa" by (rule memGet_valid [OF assms(1) ib(1)])
  have b: "memGet t (snd (getIndices t k)) = Some ?bb" by (rule memGet_valid [OF assms(1) ib(2)])
  have l: "lookUp t k = Some (ucast (drop_bit (CL t) (?aa XOR ?bb)) :: 'v word, True, t)"
    using lookUp_CL0 [OF assms(1,2,3) ib] assms(3) by simp
  have "unat (ucast (?aa XOR ?bb) :: 'v word) = unat (?aa XOR ?bb)" if "L t \<le> LENGTH('v)"
  proof (rule ucast_fits)
    have "VCL t \<le> LENGTH('v)" using that assms(3) by (simp add: VCL_def)
    then show "unat (?aa XOR ?bb) < 2 ^ LENGTH('v)"
      by (rule field_get_bound [OF valid_VCL [OF assms(1)]])
  qed
  then show ?thesis using a b l assms(3) by simp
qed

lemma component_indices: "getIndices component_table () = (1, 6)"
  by (simp add: getIndices_def component_table_def fast_map_to_A_def fast_map_to_B_def
      multiply_high_u32_def Let_def)

lemma zeros_even: "all_even (replicate 8192 0)"
  by (simp add: all_even_def)

lemma component_even: "all_even (lock component_table)"
  by (simp add: component_table_def zeros_even)

lemma component_slots:
  "memGet component_table 1 = Some 2" "memGet component_table 6 = Some 7"
  by (simp_all add: memGet_def component_table_def VCL_def Let_def to_char_def
      vec_at_def mask_eq_exp_minus_1)

theorem lookUp_xor_witness:
  "valid_table component_table \<and> all_even (lock component_table) \<and> CL component_table = 0
   \<and> 0 < unat (mb component_table)
   \<and> getIndices component_table () = (1, 6)
   \<and> memGet component_table 1 = Some 2 \<and> memGet component_table 6 = Some 7
   \<and> lookUp component_table () = Some (5 :: 8 word, True, component_table)"
proof -
  have c: "CL component_table = 0" and m: "0 < unat (mb component_table)"
    by (simp_all add: component_table_def)
  from lookUp_xor [OF component_valid component_even c m, of "()", where 'v = 8]
  have "lookUp component_table () = Some (5 :: 8 word, True, component_table)"
    by (auto simp add: component_indices component_slots c)
  then show ?thesis
    using component_valid component_even c m component_indices component_slots by simp
qed

lemma no_B_valid: "valid_table no_B_table \<and> all_even (lock no_B_table)"
  by (simp add: no_B_table_def valid_table_def mem_covers_def VCL_def zeros_even)

lemma filter_valid: "valid_table filter_table \<and> all_even (lock filter_table)"
  by (simp add: filter_table_def valid_table_def mem_covers_def VCL_def zeros_even)

lemma no_B_indices: "getIndices no_B_table () = (0, 8)"
  by (simp add: getIndices_def no_B_table_def fast_map_to_A_def fast_map_to_B_def
      multiply_high_u32_def Let_def)

lemma filter_indices: "getIndices filter_table () = (1, 6)"
  by (simp add: getIndices_def filter_table_def fast_map_to_A_def fast_map_to_B_def
      multiply_high_u32_def Let_def)

lemma no_B_lookUp: "lookUp no_B_table () = None"
proof -
  have "lookUp_loop no_B_table 0 8 = None"
    by (subst lookUp_loop.simps)
      (simp add: no_B_table_def vec_at_def memGet_def VCL_def Let_def to_char_def)
  then show ?thesis by (simp add: lookUp_def no_B_indices)
qed

lemma filter_slots: "memGet filter_table 1 = Some 0" "memGet filter_table 6 = Some 0"
  by (simp_all add: memGet_def filter_table_def VCL_def Let_def to_char_def vec_at_def)

lemma filter_lookUp: "lookUp filter_table () = None"
proof -
  have ll: "length (lock filter_table) = 8192" and c: "CL filter_table \<noteq> 0"
    by (simp_all add: filter_table_def)
  have e: "unat (lock filter_table ! unat (h AND 8191)) mod 2 = 0" for h :: u32
    using and_8191_less [of h] by (simp add: filter_table_def)
  show ?thesis
    unfolding lookUp_def filter_indices
    by (simp add: lookUp_loop_stray [OF ll e e filter_slots c])
qed

text \<open>
  Claim C1 as stated fails on two tables with even version counters and a memory that
  holds all slots. With \<open>mb = 0\<close> the index \<open>bIdx\<close> is \<open>ma\<close>, the slot after the last one,
  here in a word that the vector does not have. With \<open>CL = 6\<close> the lookup goes on to
  \<open>*(uint16_t *) aa += 1\<close>, where \<open>aa\<close> is the content 0 of slot \<open>aIdx\<close>.
\<close>

theorem lookUp_xor_counterexample:
  "valid_table no_B_table \<and> all_even (lock no_B_table)
   \<and> (lookUp no_B_table () :: (u64 \<times> bool \<times> unit DataPlaneOthello) option) = None
   \<and> valid_table filter_table \<and> all_even (lock filter_table)
   \<and> memGet filter_table (fst (getIndices filter_table ())) = Some 0
   \<and> (lookUp filter_table () :: (u64 \<times> bool \<times> unit DataPlaneOthello) option) = None"
  using no_B_valid filter_valid
  by (simp add: no_B_lookUp filter_lookUp filter_indices filter_slots)

lemma lookUp_result:
  assumes "lookUp t k = Some (v, b, t')"
  shows "b = True \<and> t' = t \<and> CL t = 0"
proof -
  obtain ha hb where "getIndices t k = (ha, hb)" by (cases "getIndices t k")
  then have "lookUp_loop t ha hb = Some (v, b, t')"
    using assms by (simp add: lookUp_def)
  from lookUp_loop_result [OF this] show ?thesis by simp
qed

text \<open>
  Claim C5, amended. On a table with \<open>CL = 0\<close> and \<open>mb \<ge> 1\<close> whose version counters
  are all even and whose packed memory holds all slots, the boolean \<open>lookUp(k, v)\<close>
  returns in its first iteration, with true, and \<open>lookUp(k)\<close> returns the value. On
  every table, no run of the boolean \<open>lookUp\<close> returns false, and so no run of
  \<open>lookUp(k)\<close> throws \<open>No matched key!\<close>.
\<close>

theorem lookUp_never_fails:
  "(valid_table t \<and> all_even (lock t) \<and> CL t = 0 \<and> 0 < unat (mb t) \<longrightarrow>
      (\<exists>v :: 'v::len word. lookUp t k = Some (v, True, t) \<and> lookUp_value t k = Some (Inr v, t)))
   \<and> (\<forall>(v :: 'v word) t'. lookUp t k \<noteq> Some (v, False, t'))
   \<and> (\<forall>t'. (lookUp_value t k :: ((error + 'v word) \<times> 'k DataPlaneOthello) option)
          \<noteq> Some (Inl NoMatchedKey, t'))"
proof (intro conjI impI allI)
  assume a: "valid_table t \<and> all_even (lock t) \<and> CL t = 0 \<and> 0 < unat (mb t)"
  then have v: "valid_table t" and e: "all_even (lock t)" and c: "CL t = 0"
    and m: "0 < unat (mb t)" by simp_all
  note ib = getIndices_in_bounds [OF m, of k]
  let ?w = "ucast (field_get (mem t) (unat (fst (getIndices t k)) * VCL t) (VCL t)
                 XOR field_get (mem t) (unat (snd (getIndices t k)) * VCL t) (VCL t)) :: 'v word"
  have l: "lookUp t k = Some (?w, True, t)" by (rule lookUp_CL0 [OF v e c ib])
  show "\<exists>v :: 'v word. lookUp t k = Some (v, True, t) \<and> lookUp_value t k = Some (Inr v, t)"
    by (intro exI [of _ ?w]) (simp add: l lookUp_value_def)
next
  fix v :: "'v word" and t'
  show "lookUp t k \<noteq> Some (v, False, t')"
    using lookUp_result [of t k v False t'] by auto
next
  fix t'
  show "(lookUp_value t k :: ((error + 'v word) \<times> 'k DataPlaneOthello) option)
      \<noteq> Some (Inl NoMatchedKey, t')"
  proof
    assume "(lookUp_value t k :: ((error + 'v word) \<times> 'k DataPlaneOthello) option)
        = Some (Inl NoMatchedKey, t')"
    then obtain v :: "'v word" and b t'' where "lookUp t k = Some (v, b, t'')" and "\<not> b"
      by (auto simp add: lookUp_value_def split: Option.bind_splits if_splits)
    then show False using lookUp_result [of t k v b t''] by simp
  qed
qed

theorem lookUp_never_fails_witness:
  "valid_table component_table \<and> all_even (lock component_table) \<and> CL component_table = 0
   \<and> 0 < unat (mb component_table)
   \<and> (\<exists>v :: 8 word. lookUp component_table () = Some (v, True, component_table)
        \<and> lookUp_value component_table () = Some (Inr v, component_table))"
proof -
  have c: "CL component_table = 0" and m: "0 < unat (mb component_table)"
    by (simp_all add: component_table_def)
  show ?thesis
    using lookUp_never_fails [of component_table "()", where 'v = 8]
      component_valid component_even c m
    by blast
qed

lemma default_lookUp: "lookUp default_table () = None"
proof -
  have i: "getIndices default_table () = (0, 0)"
    by (simp add: getIndices_def default_table_def fast_map_to_A_def fast_map_to_B_def
        multiply_high_u32_def Let_def)
  have "lookUp_loop default_table 0 0 = None"
    by (subst lookUp_loop.simps)
      (simp add: default_table_def vec_at_def memGet_def VCL_def Let_def to_char_def)
  then show ?thesis by (simp add: lookUp_def i)
qed

text \<open>
  Claim C5 as stated asks only for even version counters. On the default-constructed
  table the lookup reads \<open>mem[0]\<close> of an empty vector; on the table with \<open>CL = 6\<close> it
  reaches \<open>*(uint16_t *) aa += 1\<close>. Neither run returns true.
\<close>

theorem lookUp_never_fails_counterexample:
  "all_even (lock default_table)
   \<and> (lookUp default_table () :: (u64 \<times> bool \<times> unit DataPlaneOthello) option) = None
   \<and> all_even (lock filter_table)
   \<and> (lookUp filter_table () :: (u64 \<times> bool \<times> unit DataPlaneOthello) option) = None"
proof -
  have "all_even (lock default_table)" by (simp add: default_table_def zeros_even)
  then show ?thesis using filter_valid by (simp add: default_lookUp filter_lookUp)
qed

text \<open>
  Claim C9. When \<open>CL = 0\<close>, every run of \<open>lookUp(k, v)\<close> that returns leaves the
  whole table (packed memory, version counters and every other field) exactly as it was;
  and on a table with even version counters, \<open>mb \<ge> 1\<close> and a memory that holds all
  slots the lookup does return.
\<close>

theorem lookUp_readonly:
  assumes "CL t = 0"
  shows "(\<forall>(v :: 'v::len word) b t'. lookUp t k = Some (v, b, t') \<longrightarrow> t' = t)
       \<and> (valid_table t \<and> all_even (lock t) \<and> 0 < unat (mb t) \<longrightarrow>
            (\<exists>v :: 'v word. lookUp t k = Some (v, True, t)))"
proof (intro conjI impI allI)
  fix v :: "'v word" and b t'
  assume "lookUp t k = Some (v, b, t')"
  from lookUp_result [OF this] show "t' = t" by simp
next
  assume a: "valid_table t \<and> all_even (lock t) \<and> 0 < unat (mb t)"
  then have v: "valid_table t" and e: "all_even (lock t)" and m: "0 < unat (mb t)"
    by simp_all
  let ?w = "ucast (field_get (mem t) (unat (fst (getIndices t k)) * VCL t) (VCL t)
                 XOR field_get (mem t) (unat (snd (getIndices t k)) * VCL t) (VCL t)) :: 'v word"
  have "lookUp t k = Some (?w, True, t)"
    by (rule lookUp_CL0 [OF v e assms getIndices_in_bounds [OF m, of k]])
  then show "\<exists>v :: 'v word. lookUp t k = Some (v, True, t)" by (rule exI)
qed

theorem lookUp_readonly_witness:
  "CL component_table = 0 \<and> valid_table component_table \<and> all_even (lock component_table)
   \<and> 0 < unat (mb component_table)
   \<and> (\<exists>v :: 8 word. lookUp component_table () = Some (v, True, component_table))"
proof -
  have c: "CL component_table = 0" and m: "0 < unat (mb component_table)"
    by (simp_all add: component_table_def)
  show ?thesis
    using lookUp_readonly [OF c, of "()", where 'v = 8] component_valid component_even c m
    by blast
qed

lemma memSet_writes_back:
  assumes "valid_table t" and "in_bounds t j" and "memGet t j = Some aa"
  shows "memSet j aa t = Some (if VCL t = 0 then t else t\<lparr>lock := bump2 j (lock t)\<rparr>)"
proof (cases "VCL t = 0")
  case True
  then show ?thesis by (simp add: memSet_def)
next
  case False
  let ?p = "unat j * VCL t"
  have aa: "aa = field_get (mem t) ?p (VCL t)"
    using assms(3) memGet_valid [OF assms(1,2)] by simp
  have "field_set (mem t) ?p (VCL t) aa = mem t"
    unfolding aa
    by (rule field_set_get [OF valid_VCL [OF assms(1)] slot_field_in [OF assms(1,2)]
          field_get_less [OF valid_VCL [OF assms(1)]]])
  then show ?thesis
    using False memSet_field [OF _ valid_VCL [OF assms(1)] slot_field_in [OF assms(1,2)]
        valid_lock [OF assms(1)], of aa]
    by simp
qed

text \<open>
  Claim C4 at the table with \<open>CL = 6\<close> and all slots 0. The lookup reads \<open>aa = 0\<close> from
  slot \<open>aIdx = 1\<close> and increments through the pointer \<open>(uint16_t *) aa\<close>, not the local
  \<open>aa\<close>: the run has no defined result, and the content that \<open>memSet(ha, aa)\<close> would
  write back is the one just read, so the control sub-field of the slot would still be
  0, not 1.
\<close>

theorem lookUp_filter_no_increment:
  "CL filter_table = 6
   \<and> getIndices filter_table () = (1, 6)
   \<and> memGet filter_table 1 = Some 0
   \<and> incr_u16_at 0 = None
   \<and> (lookUp filter_table () :: (u64 \<times> bool \<times> unit DataPlaneOthello) option) = None
   \<and> (memSet 1 0 filter_table \<bind> (\<lambda>t'. memGet t' 1)) = Some 0"
proof -
  have ib: "in_bounds filter_table 1" by (simp add: in_bounds_def filter_table_def)
  have v: "valid_table filter_table" using filter_valid by simp
  have nz: "VCL filter_table \<noteq> 0" by (simp add: VCL_def filter_table_def)
  have after: "memGet (filter_table\<lparr>lock := bump2 1 (lock filter_table)\<rparr>) 1 = Some 0"
    by (simp add: memGet_def filter_table_def VCL_def Let_def to_char_def vec_at_def)
  have wb: "(memSet 1 0 filter_table \<bind> (\<lambda>t'. memGet t' 1)) = Some 0"
    using nz by (simp add: memSet_writes_back [OF v ib filter_slots(1)] after)
  have "CL filter_table = 6" by (simp add: filter_table_def)
  with wb show ?thesis
    by (simp add: filter_lookUp filter_indices filter_slots incr_u16_at_def)
qed

section \<open>Filling and fixing two slots of a key\<close>

lemma u8_add2_parity: "unat (c + 2 :: u8) mod 2 = unat c mod 2"
proof -
  have "unat (c + 2) mod 2 = ((unat c + 2) mod 256) mod 2"
    by (simp add: unat_word_ariths)
  also have "\<dots> = (unat c + 2) mod 2"
    by (rule mod_mod_cancel) simp
  finally show ?thesis by simp
qed

lemma bump2_even:
  assumes "all_even ls"
  shows "all_even (bump2 j ls)"
proof (cases "unat (j AND 8191) < length ls")
  case True
  then have "unat (ls ! unat (j AND 8191)) mod 2 = 0"
    using assms by (simp add: all_even_def)
  then have "unat (ls ! unat (j AND 8191) + 2) mod 2 = 0"
    by (simp add: u8_add2_parity)
  then show ?thesis
    using assms set_update_subset_insert [of ls "unat (j AND 8191)" "ls ! unat (j AND 8191) + 2"]
    unfolding all_even_def bump2_def by auto
next
  case False
  then have "length ls \<le> unat (j AND 8191)" by simp
  then show ?thesis using assms by (simp add: bump2_def list_update_beyond)
qed

lemma memValueSet_effect:
  assumes v: "valid_table t" and ib: "in_bounds t i" and ev: "all_even (lock t)"
  obtains t1 where "memValueSet i val t = Some t1" and "valid_table t1"
    and "all_even (lock t1)"
    and "L t1 = L t" and "CL t1 = CL t" and "ma t1 = ma t" and "mb t1 = mb t"
    and "hab t1 = hab t"
    and "memValueGet t1 i = Some (take_bit (L t) val)"
    and "\<And>j. in_bounds t j \<Longrightarrow> j \<noteq> i \<Longrightarrow> memValueGet t1 j = memValueGet t j"
proof (cases "L t = 0")
  case True
  show ?thesis
  proof (rule that [of t])
    show "memValueSet i val t = Some t" using True by (simp add: memValueSet_def)
    show "memValueGet t i = Some (take_bit (L t) val)"
      using True by (simp add: memValueGet_def)
  qed (simp_all add: v ev)
next
  case False
  let ?p = "unat i * VCL t + CL t"
  let ?m1 = "field_set (mem t) ?p (L t) val"
  let ?t1 = "t\<lparr>mem := ?m1, lock := bump2 i (lock t)\<rparr>"
  have l64: "L t \<le> 64" by (rule valid_L [OF v])
  have fin: "field_in (mem t) ?p (L t)"
    using False by (intro value_field_in v ib) simp
  have v1: "valid_table ?t1" by (rule valid_after_set [OF v])
  have vcl1: "VCL ?t1 = VCL t" by (simp add: VCL_def)
  have ib1: "in_bounds ?t1 j" if "in_bounds t j" for j
    using that by (simp add: in_bounds_def)
  show ?thesis
  proof (rule that [of ?t1])
    show "memValueSet i val t = Some ?t1"
      using False by (simp add: memValueSet_valid [OF v ib])
    show "valid_table ?t1" by (rule v1)
    show "all_even (lock ?t1)" using bump2_even [OF ev] by simp
    show "memValueGet ?t1 i = Some (take_bit (L t) val)"
      by (simp add: memValueGet_valid [OF v1 ib1 [OF ib]] vcl1 field_get_set_same [OF l64 fin])
  next
    fix j assume j: "in_bounds t j" and ne: "j \<noteq> i"
    then have ne': "unat i \<noteq> unat j" by (simp add: word_unat_eq_iff)
    have "unat j * VCL t + CL t + L t \<le> 64 * length (mem t)"
      using slot_end [OF v j] by (simp add: VCL_def)
    then have "field_get ?m1 (unat j * VCL t + CL t) (L t)
        = field_get (mem t) (unat j * VCL t + CL t) (L t)"
      using value_slots_disjoint [OF ne', of t]
      by (intro field_get_set_other l64 fin) simp_all
    then show "memValueGet ?t1 j = memValueGet t j"
      by (simp add: memValueGet_valid [OF v j] memValueGet_valid [OF v1 ib1 [OF j]] vcl1)
  qed simp_all
qed

lemma memGet_is_value:
  assumes "valid_table t" and "in_bounds t j" and "CL t = 0"
  shows "memGet t j = memValueGet t j"
  using assms(3) by (simp add: memGet_valid [OF assms(1,2)] memValueGet_valid [OF assms(1,2)] VCL_def)

lemma getIndices_cong:
  assumes "hab t' = hab t" and "ma t' = ma t" and "mb t' = mb t"
  shows "getIndices t' k = getIndices t k"
  using assms by (simp add: getIndices_def fast_map_to_A_def fast_map_to_B_def)

lemma lookUp_two_slots:
  assumes v: "valid_table t" and ev: "all_even (lock t)" and c0: "CL t = 0"
    and gi: "getIndices t k = (a, b)" and ia: "in_bounds t a" and ib: "in_bounds t b"
    and va: "memValueGet t a = Some x" and vb: "memValueGet t b = Some y"
  shows "lookUp t k = Some (ucast (x XOR y), True, t)"
proof -
  have ia': "in_bounds t (fst (getIndices t k))" and ib': "in_bounds t (snd (getIndices t k))"
    using ia ib by (simp_all add: gi)
  have "memGet t a = Some x" "memGet t b = Some y"
    using va vb by (simp_all add: memGet_is_value [OF v _ c0] ia ib)
  then have "field_get (mem t) (unat a * VCL t) (VCL t) = x"
    and "field_get (mem t) (unat b * VCL t) (VCL t) = y"
    by (simp_all add: memGet_valid [OF v] ia ib)
  then show ?thesis
    using lookUp_CL0 [OF v ev c0 ia' ib'] by (simp add: gi)
qed

lemma fixSingle_as_set:
  assumes "memValueGet t j = Some g"
  shows "fixSingle j x t = memValueSet j (x XOR g) t"
  using assms by (simp add: fixSingle_def)

text \<open>
  Claim C3, amended. With \<open>ma = 4\<close>, \<open>mb = 4\<close>, \<open>L = 8\<close>, \<open>CL = 0\<close> and a key \<open>k1\<close>
  whose \<open>getIndices\<close> result is \<open>(1, 6)\<close>: after \<open>fillSingle(42, 1)\<close> and
  \<open>fillSingle(0, 6)\<close> (the value is the first argument, the slot the second),
  \<open>lookUp(k1)\<close> returns 42; after \<open>fixSingle(6, 42 ^ 7)\<close> in addition, it returns 7.
\<close>

theorem fill_fix_scenario:
  assumes v: "valid_table t" and ev: "all_even (lock t)"
    and shape: "ma t = 4" "mb t = 4" "L t = 8" "CL t = 0"
    and gi: "getIndices t k1 = (1, 6)"
  shows "map_option fst (fillSingle 42 1 t \<bind> fillSingle 0 6 \<bind> (\<lambda>t2. lookUp t2 k1))
           = Some (42 :: 'v::len word)
       \<and> map_option fst (fillSingle 42 1 t \<bind> fillSingle 0 6 \<bind> fixSingle 6 (42 XOR 7)
                           \<bind> (\<lambda>t3. lookUp t3 k1))
           = Some (7 :: 'v word)"
proof -
  have ib: "in_bounds t 1" "in_bounds t 6" by (simp_all add: in_bounds_def shape)
  from memValueSet_effect [OF v ib(1) ev, of 42]
  obtain t1 where s1: "memValueSet 1 42 t = Some t1" and v1: "valid_table t1"
    and e1: "all_even (lock t1)"
    and sh1: "L t1 = L t" "CL t1 = CL t" "ma t1 = ma t" "mb t1 = mb t" "hab t1 = hab t"
    and g1: "memValueGet t1 1 = Some (take_bit (L t) 42)"
    by blast
  have ib1: "in_bounds t1 1" "in_bounds t1 6" by (simp_all add: in_bounds_def shape sh1)
  from memValueSet_effect [OF v1 ib1(2) e1, of 0]
  obtain t2 where s2: "memValueSet 6 0 t1 = Some t2" and v2: "valid_table t2"
    and e2: "all_even (lock t2)"
    and sh2: "L t2 = L t1" "CL t2 = CL t1" "ma t2 = ma t1" "mb t2 = mb t1" "hab t2 = hab t1"
    and g2: "memValueGet t2 6 = Some (take_bit (L t1) 0)"
    and o2: "\<And>j. in_bounds t1 j \<Longrightarrow> j \<noteq> 6 \<Longrightarrow> memValueGet t2 j = memValueGet t1 j"
    by blast
  have ib2: "in_bounds t2 1" "in_bounds t2 6" by (simp_all add: in_bounds_def shape sh1 sh2)
  have a2: "memValueGet t2 1 = Some 42"
    using o2 [OF ib1(1)] g1 by (simp add: shape)
  have b2: "memValueGet t2 6 = Some 0" using g2 by simp
  have gi2: "getIndices t2 k1 = (1, 6)"
    using getIndices_cong [of t2 t k1] by (simp add: sh1 sh2 gi)
  have c2: "CL t2 = 0" by (simp add: sh1 sh2 shape)
  have l2: "lookUp t2 k1 = Some (42 :: 'v word, True, t2)"
    using lookUp_two_slots [OF v2 e2 c2 gi2 ib2 a2 b2] by simp
  from memValueSet_effect [OF v2 ib2(2) e2, of "(42 XOR 7) XOR 0"]
  obtain t3 where s3: "memValueSet 6 ((42 XOR 7) XOR 0) t2 = Some t3" and v3: "valid_table t3"
    and e3: "all_even (lock t3)"
    and sh3: "L t3 = L t2" "CL t3 = CL t2" "ma t3 = ma t2" "mb t3 = mb t2" "hab t3 = hab t2"
    and g3: "memValueGet t3 6 = Some (take_bit (L t2) ((42 XOR 7) XOR 0))"
    and o3: "\<And>j. in_bounds t2 j \<Longrightarrow> j \<noteq> 6 \<Longrightarrow> memValueGet t3 j = memValueGet t2 j"
    by blast
  have f3: "fixSingle 6 (42 XOR 7) t2 = Some t3"
    using s3 by (simp add: fixSingle_as_set [OF b2])
  have ib3: "in_bounds t3 1" "in_bounds t3 6"
    by (simp_all add: in_bounds_def shape sh1 sh2 sh3)
  have a3: "memValueGet t3 1 = Some 42" using o3 [OF ib2(1)] a2 by simp
  have b3: "memValueGet t3 6 = Some 45" using g3 by (simp add: sh1 sh2 shape)
  have gi3: "getIndices t3 k1 = (1, 6)"
    using getIndices_cong [of t3 t k1] by (simp add: sh1 sh2 sh3 gi)
  have c3: "CL t3 = 0" by (simp add: sh1 sh2 sh3 shape)
  have l3: "lookUp t3 k1 = Some (7 :: 'v word, True, t3)"
    using lookUp_two_slots [OF v3 e3 c3 gi3 ib3 a3 b3] by simp
  have f1: "fillSingle 42 1 t = Some t1" using s1 by (simp add: fillSingle_def)
  have f2: "fillSingle 0 6 t1 = Some t2" using s2 by (simp add: fillSingle_def)
  show ?thesis using f3 by (simp add: f1 f2 l2 l3)
qed

theorem fill_fix_scenario_witness:
  "valid_table component_table \<and> all_even (lock component_table)
   \<and> ma component_table = 4 \<and> mb component_table = 4
   \<and> L component_table = 8 \<and> CL component_table = 0
   \<and> getIndices component_table () = (1, 6)
   \<and> map_option fst (fillSingle 42 1 component_table \<bind> fillSingle 0 6
                       \<bind> (\<lambda>t2. lookUp t2 ())) = Some (42 :: 8 word)
   \<and> map_option fst (fillSingle 42 1 component_table \<bind> fillSingle 0 6
                       \<bind> fixSingle 6 (42 XOR 7) \<bind> (\<lambda>t3. lookUp t3 ())) = Some (7 :: 8 word)"
proof -
  have sh: "ma component_table = 4" "mb component_table = 4"
    "L component_table = 8" "CL component_table = 0"
    by (simp_all add: component_table_def)
  show ?thesis
    using fill_fix_scenario [OF component_valid component_even sh component_indices, where 'v = 8]
      component_valid component_even sh component_indices
    by simp
qed

lemma small_fill_swapped: "fillSingle 1 42 small_table = None"
  by (simp add: fillSingle_def memValueSet_def small_table_def lock_incr_def vec_at_def
      vec_put_def Let_def VCL_def to_char_def mem_and_def)

lemma roomy_valid: "valid_table roomy_table" "all_even (lock roomy_table)"
  by (simp_all add: roomy_table_def valid_table_def mem_covers_def VCL_def zeros_even)

lemma roomy_indices: "getIndices roomy_table () = (1, 6)"
  by (simp add: getIndices_def roomy_table_def fast_map_to_A_def fast_map_to_B_def
      multiply_high_u32_def Let_def)

lemma roomy_fill_swapped:
  "map_option fst (fillSingle 1 42 roomy_table \<bind> fillSingle 6 0 \<bind> (\<lambda>t2. lookUp t2 ()))
     = Some (0 :: 'v::len word)"
proof -
  let ?ws = "[0, 0, 0, 0, 0, 0] :: u64 list"
  let ?t1 = "roomy_table\<lparr>mem := field_set ?ws 336 8 1, lock := bump2 42 (lock roomy_table)\<rparr>"
  have sh: "L roomy_table = 8" "CL roomy_table = 0" "VCL roomy_table = 8"
    "mem roomy_table = ?ws" "length (lock roomy_table) = 8192"
    "ma roomy_table = 4" "mb roomy_table = 4"
    by (simp_all add: roomy_table_def VCL_def)
  have fin: "field_in ?ws 336 8" by (simp add: field_in_def)
  have "memValueSet 42 1 roomy_table = Some ?t1"
    using memValueSet_field [of roomy_table 42 1] fin by (simp add: sh)
  then have f1: "fillSingle 1 42 roomy_table = Some ?t1" by (simp add: fillSingle_def)
  have v1: "valid_table ?t1"
    using valid_after_set [OF roomy_valid(1), where p = 336 and w = 8 and val = 1 and j = 42]
    by (simp add: sh)
  have e1: "all_even (lock ?t1)" using bump2_even [OF roomy_valid(2)] by simp
  have ib1: "in_bounds ?t1 0" "in_bounds ?t1 1" "in_bounds ?t1 6"
    by (simp_all add: in_bounds_def sh)
  have sh1: "VCL ?t1 = 8" "CL ?t1 = 0" "L ?t1 = 8" by (simp_all add: VCL_def sh)
  have "field_get (field_set ?ws 336 8 1) 8 8 = field_get ?ws 8 8"
    by (rule field_get_set_other [OF _ fin]) simp_all
  then have a1: "memValueGet ?t1 1 = Some 0"
    by (simp add: memValueGet_valid [OF v1 ib1(2)] sh1 field_get_def)
  have "field_get (field_set ?ws 336 8 1) 48 8 = field_get ?ws 48 8"
    by (rule field_get_set_other [OF _ fin]) simp_all
  then have b1: "memValueGet ?t1 6 = Some 0"
    by (simp add: memValueGet_valid [OF v1 ib1(3)] sh1 field_get_def)
  from memValueSet_effect [OF v1 ib1(1) e1, of 6]
  obtain t2 where s2: "memValueSet 0 6 ?t1 = Some t2" and v2: "valid_table t2"
    and e2: "all_even (lock t2)"
    and sh2: "L t2 = L ?t1" "CL t2 = CL ?t1" "ma t2 = ma ?t1" "mb t2 = mb ?t1" "hab t2 = hab ?t1"
    and o2: "\<And>j. in_bounds ?t1 j \<Longrightarrow> j \<noteq> 0 \<Longrightarrow> memValueGet t2 j = memValueGet ?t1 j"
    by blast
  have f2: "fillSingle 6 0 ?t1 = Some t2" using s2 by (simp add: fillSingle_def)
  have ib2: "in_bounds t2 1" "in_bounds t2 6" by (simp_all add: in_bounds_def sh sh2)
  have a2: "memValueGet t2 1 = Some 0" using o2 [OF ib1(2)] a1 by simp
  have b2: "memValueGet t2 6 = Some 0" using o2 [OF ib1(3)] b1 by simp
  have gi2: "getIndices t2 () = (1, 6)"
    using getIndices_cong [of t2 roomy_table "()"] by (simp add: sh2 roomy_indices)
  have c2: "CL t2 = 0" by (simp add: sh2 sh)
  have "lookUp t2 () = Some (0 :: 'v word, True, t2)"
    using lookUp_two_slots [OF v2 e2 c2 gi2 ib2 a2 b2] by simp
  then show ?thesis by (simp add: f1 f2)
qed

text \<open>
  Claim C3 as stated calls \<open>fillSingle(1, 42)\<close> and \<open>fillSingle(6, 0)\<close>. The first
  parameter of \<open>fillSingle\<close> is the value, so these calls write 1 to slot 42 and 6 to
  slot 0. With one word of memory the first call writes outside the vector; with room
  for slot 42 both calls return, the slots 1 and 6 keep their content 0, and the lookup
  returns 0, not 42.
\<close>

theorem fill_fix_scenario_counterexample:
  "ma small_table = 4 \<and> mb small_table = 4 \<and> L small_table = 8 \<and> CL small_table = 0
   \<and> getIndices small_table () = (1, 6)
   \<and> fillSingle 1 42 small_table = None
   \<and> ma roomy_table = 4 \<and> mb roomy_table = 4 \<and> L roomy_table = 8 \<and> CL roomy_table = 0
   \<and> getIndices roomy_table () = (1, 6)
   \<and> map_option fst (fillSingle 1 42 roomy_table \<bind> fillSingle 6 0 \<bind> (\<lambda>t2. lookUp t2 ()))
       = Some (0 :: 8 word)
   \<and> (0 :: 8 word) \<noteq> 42"
proof -
  have "getIndices small_table () = (1, 6)"
    by (simp add: getIndices_def small_table_def fast_map_to_A_def fast_map_to_B_def
        multiply_high_u32_def Let_def)
  moreover have "ma small_table = 4 \<and> mb small_table = 4 \<and> L small_table = 8 \<and> CL small_table = 0"
    by (simp add: small_table_def)
  moreover have "ma roomy_table = 4 \<and> mb roomy_table = 4 \<and> L roomy_table = 8 \<and> CL roomy_table = 0"
    by (simp add: roomy_table_def)
  ultimately show ?thesis
    using small_fill_swapped roomy_fill_swapped [where 'v = 8] roomy_indices by simp
qed

section \<open>Version counters\<close>




































end
